theory Spec2Isabelle
  imports Main "HOL-Library.Word" "HOL-Library.Sublist"
begin

section \<open>The board as the firmware sees it\<close>

text \<open>
  The firmware of \<^verbatim>\<open>gsm.cpp\<close> talks to four things outside itself: the millisecond
  timer, the UART to the modem, the SPIFFS flash filesystem and the heap. They are
  gathered in one record that every function of the firmware takes and returns.

  \<^item> \<open>clock\<close> is the 32-bit value \<^verbatim>\<open>millis()\<close> would return; it wraps.
  \<^item> \<open>future\<close> is what the outside will do: one entry for each later call of
    \<^verbatim>\<open>millis()\<close>, giving the milliseconds gone by since the last look at the timer and
    the bytes the modem has put on the line meanwhile. A run of the firmware that needs
    more entries than there are has not returned when the script ends: its value is
    \<open>None\<close>.
  \<^item> \<open>rxbuf\<close> is the receive buffer of the UART (taken to be large enough), \<open>tx\<close> the
    writes to the modem, one element for each \<^verbatim>\<open>print\<close>/\<^verbatim>\<open>println\<close>.
  \<^item> \<open>console\<close> is what went to the debug serial port, \<open>hw\<close> the pin operations and
    delays.
  \<^item> \<open>files\<close>, \<open>fs_mounted\<close>, \<open>fs_room\<close> and \<open>wr_open\<close> are SPIFFS: the stored files,
    whether \<^verbatim>\<open>SPIFFS.begin\<close> succeeded, the free bytes left, and the path of the
    file open for writing. \<open>heap_free\<close> is the free heap.
\<close>

type_synonym u32 = "32 word"

datatype console_msg =
    MsgConnecting                 \<comment> \<open>Connecting to GSM...\<close>
  | MsgRetrying                   \<comment> \<open>Retrying GSM...\<close>
  | MsgPowerCycling               \<comment> \<open>Power cycling modem...\<close>
  | MsgBanner                     \<comment> \<open>the three lines STARTING DOWNLOAD\<close>
  | MsgUrlConnectFailed           \<comment> \<open>Error: URL CONNECT failed\<close>
  | MsgTargetFileSize int         \<comment> \<open>Target File Size: n bytes\<close>
  | MsgHttpGetError string        \<comment> \<open>HTTP GET Error: line\<close>
  | MsgGetSizeFailed              \<comment> \<open>Failed to get file size. Check URL or Network.\<close>
  | MsgSpiffsWriteError           \<comment> \<open>SPIFFS Write Error - Did you call SPIFFS.begin()?\<close>
  | MsgNoConnect                  \<comment> \<open>Modem did not start data stream (No CONNECT)\<close>
  | MsgAllocFailed                \<comment> \<open>Memory Allocation Failed\<close>
  | MsgStreamTimedOut             \<comment> \<open>ERROR: Data stream timed out (Host inactive)\<close>
  | MsgProgress int int           \<comment> \<open>Downloading: p% (n B)\<close>
  | MsgDownloadSuccess int int    \<comment> \<open>Download Success: n / m bytes\<close>
  | MsgDownloadIncomplete int int \<comment> \<open>Download INCOMPLETE: n / m bytes\<close>
  | MsgDeleting                   \<comment> \<open>(Deleting incomplete file...)\<close>
  | MsgVerifying                  \<comment> \<open>--- VERIFYING SPIFFS FILE ---\<close>
  | MsgVerifyOpenFailed           \<comment> \<open>Failed to open file for verification\<close>
  | MsgVerifyMemoryError          \<comment> \<open>Memory error in verification\<close>
  | MsgMD5 string                 \<comment> \<open>MD5: the digest of these bytes, in hex\<close>

datatype hw_op = PinModeOutput nat | DigitalWrite nat bool | Delay nat

record world =
  clock :: u32
  future :: "(nat \<times> string) list"
  rxbuf :: string
  tx :: "string list"
  console :: "console_msg list"
  hw :: "hw_op list"
  uart_rxsize :: nat
  fs_mounted :: bool
  files :: "string \<Rightarrow> string option"
  fs_room :: nat
  wr_open :: "string option"
  heap_free :: nat

subsection \<open>Configuration\<close>

definition PIN_CELL_PWRKEY :: nat where "PIN_CELL_PWRKEY = 4"
definition PIN_CELL_RST :: nat where "PIN_CELL_RST = 7"
definition FILE_PATH :: string where "FILE_PATH = ''/bootcode.bin''"
definition CHUNK_SIZE :: nat where "CHUNK_SIZE = 4096"

subsection \<open>Timer, debug console, pins\<close>

definition millis :: "world \<Rightarrow> (u32 \<times> world) option" where
  "millis w =
     (case future w of
        [] \<Rightarrow> None
      | (d, bs) # rest \<Rightarrow>
          let t = clock w + of_nat d
          in Some (t, w\<lparr>clock := t, future := rest, rxbuf := rxbuf w @ bs\<rparr>))"

definition delay :: "nat \<Rightarrow> world \<Rightarrow> world" where
  "delay n w = w\<lparr>clock := clock w + of_nat n, hw := hw w @ [Delay n]\<rparr>"

definition serial_println :: "console_msg \<Rightarrow> world \<Rightarrow> world" where
  "serial_println m w = w\<lparr>console := console w @ [m]\<rparr>"

definition pinModeOutput :: "nat \<Rightarrow> world \<Rightarrow> world" where
  "pinModeOutput p w = w\<lparr>hw := hw w @ [PinModeOutput p]\<rparr>"

definition digitalWrite :: "nat \<Rightarrow> bool \<Rightarrow> world \<Rightarrow> world" where
  "digitalWrite p v w = w\<lparr>hw := hw w @ [DigitalWrite p v]\<rparr>"

subsection \<open>The UART to the modem\<close>

definition CRLF :: string where "CRLF = [CHR 0x0D, CHR 0x0A]"

definition uart_begin :: "nat \<Rightarrow> world \<Rightarrow> world" where
  "uart_begin rxsize w = w\<lparr>uart_rxsize := rxsize\<rparr>"

definition uart_print :: "string \<Rightarrow> world \<Rightarrow> world" where
  "uart_print s w = w\<lparr>tx := tx w @ [s]\<rparr>"

definition uart_println :: "string \<Rightarrow> world \<Rightarrow> world" where
  "uart_println s w = w\<lparr>tx := tx w @ [s @ CRLF]\<rparr>"

definition uart_available :: "world \<Rightarrow> nat" where
  "uart_available w = length (rxbuf w)"

definition uart_read :: "world \<Rightarrow> int \<times> world" where
  "uart_read w =
     (case rxbuf w of
        [] \<Rightarrow> (- 1, w)
      | c # cs \<Rightarrow> (of_char c, w\<lparr>rxbuf := cs\<rparr>))"

definition uart_readBytes :: "nat \<Rightarrow> world \<Rightarrow> string \<times> world" where
  "uart_readBytes n w = (take n (rxbuf w), w\<lparr>rxbuf := drop n (rxbuf w)\<rparr>)"

lemma millis_future:
  "millis w = Some (t, w1) \<Longrightarrow> length (future w1) < length (future w)"
  by (auto simp: millis_def Let_def split: list.splits)

lemma uart_read_future: "(c, w1) = uart_read w \<Longrightarrow> future w1 = future w"
  by (auto simp: uart_read_def split: list.splits)

subsection \<open>Arduino strings\<close>

text \<open>
  A \<^verbatim>\<open>String\<close> is the list of its characters, a zero byte included when one has been
  appended: \<^verbatim>\<open>resp += char(...)\<close> stores it and counts it in the length. The searches
  \<^verbatim>\<open>indexOf\<close> and \<^verbatim>\<open>lastIndexOf\<close> are C's \<^verbatim>\<open>strstr\<close> and \<^verbatim>\<open>strrchr\<close> on the buffer, which
  end at the first zero byte: \<open>c_str s\<close> is what they see of \<open>s\<close>. A pattern given as a
  \<^verbatim>\<open>const char*\<close> is a C string too. \<^verbatim>\<open>indexOf\<close> answers -1 on an empty receiver before
  it searches, as the library does. \<^verbatim>\<open>startsWith\<close> compares with \<^verbatim>\<open>strncmp\<close> over the
  length of the pattern; the patterns of \<^verbatim>\<open>gsm.cpp\<close> are literals without a zero byte, and
  for these it is the prefix test.
\<close>

definition c_str :: "string \<Rightarrow> string" where
  "c_str s = takeWhile (\<lambda>c. c \<noteq> CHR 0x00) s"

fun strstr :: "string \<Rightarrow> string \<Rightarrow> nat option" where
  "strstr [] t = (if t = [] then Some 0 else None)"
| "strstr (c # s) t =
     (if prefix t (c # s) then Some 0 else map_option Suc (strstr s t))"

definition indexOf :: "string \<Rightarrow> string \<Rightarrow> int" where
  "indexOf s t =
     (if s = [] then - 1
      else case strstr (c_str s) (c_str t) of None \<Rightarrow> - 1 | Some i \<Rightarrow> int i)"

definition startsWith :: "string \<Rightarrow> string \<Rightarrow> bool" where
  "startsWith s t = prefix t s"


text \<open>
  \<^verbatim>\<open>lastIndexOf\<close>, \<^verbatim>\<open>substring\<close> and \<^verbatim>\<open>toInt\<close>. \<^verbatim>\<open>lastIndexOf\<close> answers -1 on an empty
  receiver, and otherwise what \<^verbatim>\<open>strrchr\<close> finds in the buffer up to its first zero byte
  (the place of that byte when asked for the zero byte itself). \<^verbatim>\<open>toInt\<close> is C's \<^verbatim>\<open>atol\<close>: blanks, a
  sign, then digits up to the first other character, and the ends of the range of a
  32-bit \<^verbatim>\<open>long\<close> when the digits say more. \<open>decimal\<close> is \<^verbatim>\<open>String(n)\<close> for an unsigned
  number.
\<close>

definition lastIndexOf :: "string \<Rightarrow> char \<Rightarrow> int" where
  "lastIndexOf s ch =
     (if s = [] then - 1
      else if ch = CHR 0x00 then int (length (c_str s))
      else if ch \<in> set (c_str s)
      then int (length (c_str s)) - 1
             - int (length (takeWhile (\<lambda>c. c \<noteq> ch) (rev (c_str s))))
      else - 1)"

definition substring :: "string \<Rightarrow> int \<Rightarrow> string" where
  "substring s left = (if left < 0 then [] else drop (nat left) s)"

definition isspace :: "char \<Rightarrow> bool" where
  "isspace c = (c = CHR '' '' \<or> (9 :: nat) \<le> of_char c \<and> (of_char c :: nat) \<le> 13)"

definition isdigit :: "char \<Rightarrow> bool" where
  "isdigit c = ((48 :: nat) \<le> of_char c \<and> (of_char c :: nat) \<le> 57)"

fun atol_digits :: "int \<Rightarrow> string \<Rightarrow> int" where
  "atol_digits acc [] = acc"
| "atol_digits acc (c # cs) =
     (if isdigit c then atol_digits (acc * 10 + (of_char c - 48)) cs else acc)"

definition LONG_MAX :: int where "LONG_MAX = 2147483647"
definition LONG_MIN :: int where "LONG_MIN = - 2147483648"

definition toInt :: "string \<Rightarrow> int" where
  "toInt s =
     (case dropWhile isspace s of
        [] \<Rightarrow> 0
      | c # cs \<Rightarrow>
          if c = CHR ''-'' then max LONG_MIN (- atol_digits 0 cs)
          else if c = CHR ''+'' then min LONG_MAX (atol_digits 0 cs)
          else min LONG_MAX (atol_digits 0 (c # cs)))"

function decimal :: "nat \<Rightarrow> string" where
  "decimal n =
     (if n < 10 then [''0123456789'' ! n]
      else decimal (n div 10) @ [''0123456789'' ! (n mod 10)])"
  by pat_completeness auto
termination
  by (relation "measure (\<lambda>n. n)") auto

declare decimal.simps [simp del]

subsection \<open>Timed reads of the Arduino Stream class\<close>

text \<open>
  \<^verbatim>\<open>readStringUntil\<close> is the library's: it takes characters with \<^verbatim>\<open>timedRead\<close> until the
  terminator, which it drops, or until \<^verbatim>\<open>timedRead\<close> gives up. \<^verbatim>\<open>timedRead\<close> waits for
  one character for at most the stream's timeout, one second unless set otherwise
  (\<^verbatim>\<open>gsm.cpp\<close> does not set it), and starts its wait anew for each character.
\<close>

definition STREAM_TIMEOUT :: u32 where "STREAM_TIMEOUT = 1000"

function timedRead_loop :: "u32 \<Rightarrow> world \<Rightarrow> (int \<times> world) option" where
  "timedRead_loop startMillis w =
     (case uart_read w of
        (c, w1) \<Rightarrow>
          if 0 \<le> c then Some (c, w1)
          else
            (case millis w1 of
               None \<Rightarrow> None
             | Some (now, w2) \<Rightarrow>
                 if now - startMillis < STREAM_TIMEOUT then timedRead_loop startMillis w2
                 else Some (- 1, w2)))"
  by pat_completeness auto
termination
  by (relation "measure (\<lambda>(startMillis, w). length (future w))")
     (auto simp: millis_def uart_read_def Let_def split: list.splits)

declare timedRead_loop.simps [simp del]

definition timedRead :: "world \<Rightarrow> (int \<times> world) option" where
  "timedRead w =
     (case millis w of
        None \<Rightarrow> None
      | Some (startMillis, w1) \<Rightarrow> timedRead_loop startMillis w1)"

lemma timedRead_loop_future:
  "timedRead_loop startMillis w = Some (c, w') \<Longrightarrow> length (future w') \<le> length (future w)"
proof (induction startMillis w rule: timedRead_loop.induct)
  case (1 startMillis w)
  obtain c0 w1 where r: "uart_read w = (c0, w1)" by (cases "uart_read w")
  have f1: "future w1 = future w" using r by (auto simp: uart_read_def split: list.splits)
  show ?case
  proof (cases "0 \<le> c0")
    case True
    with "1.prems" r f1 show ?thesis by (simp add: timedRead_loop.simps [of startMillis w])
  next
    case neg: False
    with "1.prems" r obtain now w2 where m: "millis w1 = Some (now, w2)"
      by (auto simp: timedRead_loop.simps [of startMillis w] split: option.splits)
    from millis_future [OF m] f1 have f2: "length (future w2) < length (future w)" by simp
    show ?thesis
    proof (cases "now - startMillis < STREAM_TIMEOUT")
      case True
      with "1.prems" r neg m have "timedRead_loop startMillis w2 = Some (c, w')"
        by (simp add: timedRead_loop.simps [of startMillis w])
      from "1.IH" [OF r [symmetric] neg m refl True this] f2 show ?thesis by simp
    next
      case False
      with "1.prems" r neg m f2 show ?thesis
        by (auto simp: timedRead_loop.simps [of startMillis w])
    qed
  qed
qed

lemma timedRead_future:
  "timedRead w = Some (c, w') \<Longrightarrow> length (future w') < length (future w)"
  by (auto simp: timedRead_def split: option.splits
      dest!: millis_future timedRead_loop_future)

function readStringUntil_loop :: "char \<Rightarrow> string \<Rightarrow> int \<Rightarrow> world \<Rightarrow> (string \<times> world) option" where
  "readStringUntil_loop terminator ret c w =
     (if 0 \<le> c \<and> c \<noteq> of_char terminator then
        (case timedRead w of
           None \<Rightarrow> None
         | Some (c', w1) \<Rightarrow> readStringUntil_loop terminator (ret @ [char_of c]) c' w1)
      else Some (ret, w))"
  by pat_completeness auto
termination
  by (relation "measure (\<lambda>(terminator, ret, c, w). length (future w))")
     (auto dest!: timedRead_future)

declare readStringUntil_loop.simps [simp del]

definition readStringUntil :: "char \<Rightarrow> world \<Rightarrow> (string \<times> world) option" where
  "readStringUntil terminator w =
     (case timedRead w of
        None \<Rightarrow> None
      | Some (c, w1) \<Rightarrow> readStringUntil_loop terminator [] c w1)"

subsection \<open>SPIFFS and the heap\<close>

text \<open>
  Opening a file for writing creates it empty (or empties it) and fails only when the
  filesystem is not mounted. A write stores as many of its bytes as there is room for
  and answers how many that was. \<^verbatim>\<open>malloc\<close> fails when the heap has fewer free bytes
  than asked for.
\<close>

definition spiffs_exists :: "string \<Rightarrow> world \<Rightarrow> bool" where
  "spiffs_exists p w = (fs_mounted w \<and> files w p \<noteq> None)"

definition spiffs_remove :: "string \<Rightarrow> world \<Rightarrow> world" where
  "spiffs_remove p w =
     (if fs_mounted w then
        (case files w p of
           None \<Rightarrow> w
         | Some content \<Rightarrow>
             w\<lparr>files := (files w)(p := None), fs_room := fs_room w + length content\<rparr>)
      else w)"

definition spiffs_open_write :: "string \<Rightarrow> world \<Rightarrow> bool \<times> world" where
  "spiffs_open_write p w =
     (if fs_mounted w then
        (True,
         w\<lparr>files := (files w)(p := Some []),
           fs_room := fs_room w + (case files w p of None \<Rightarrow> 0 | Some content \<Rightarrow> length content),
           wr_open := Some p\<rparr>)
      else (False, w))"

definition file_write :: "string \<Rightarrow> world \<Rightarrow> nat \<times> world" where
  "file_write buf w =
     (case wr_open w of
        None \<Rightarrow> (0, w)
      | Some p \<Rightarrow>
          let n = min (length buf) (fs_room w)
          in (n, w\<lparr>files := (files w)(p := Some ((case files w p of None \<Rightarrow> [] | Some content \<Rightarrow> content) @ take n buf)),
                    fs_room := fs_room w - n\<rparr>))"

definition file_close :: "world \<Rightarrow> world" where
  "file_close w = w\<lparr>wr_open := None\<rparr>"

definition malloc :: "nat \<Rightarrow> world \<Rightarrow> bool \<times> world" where
  "malloc n w =
     (if n \<le> heap_free w then (True, w\<lparr>heap_free := heap_free w - n\<rparr>) else (False, w))"

definition free :: "nat \<Rightarrow> world \<Rightarrow> world" where
  "free n w = w\<lparr>heap_free := heap_free w + n\<rparr>"


section \<open>The AT transaction engine\<close>

function sendAT_loop ::
  "string \<Rightarrow> u32 \<Rightarrow> u32 \<Rightarrow> string \<Rightarrow> world \<Rightarrow> (bool \<times> string \<times> world) option" where
  "sendAT_loop expected timeout start resp w =
     (case millis w of
        None \<Rightarrow> None
      | Some (now, w1) \<Rightarrow>
          if now - start < timeout then
            if 0 < uart_available w1 then
              (case uart_read w1 of
                 (c, w2) \<Rightarrow>
                   let resp' = resp @ [char_of c]
                   in if indexOf resp' expected \<noteq> - 1 then Some (True, resp', w2)
                      else sendAT_loop expected timeout start resp' w2)
            else sendAT_loop expected timeout start resp w1
          else Some (False, resp, w1))"
  by pat_completeness auto

termination sendAT_loop
  by (relation "measure (\<lambda>(expected, timeout, start, resp, w). length (future w))")
     (auto dest!: millis_future uart_read_future)

declare sendAT_loop.simps [simp del]

definition sendAT :: "string \<Rightarrow> string \<Rightarrow> u32 \<Rightarrow> world \<Rightarrow> (bool \<times> world) option" where
  "sendAT cmd expected timeout w =
     (let w0 = (if cmd \<noteq> [] then uart_println cmd w else w)
      in case millis w0 of
           None \<Rightarrow> None
         | Some (start, w1) \<Rightarrow>
             (case sendAT_loop expected timeout start [] w1 of
                None \<Rightarrow> None
              | Some (ok, resp, w2) \<Rightarrow> Some (ok, w2)))"

function drain :: "string \<Rightarrow> world \<Rightarrow> string \<times> world" where
  "drain resp w =
     (if 0 < uart_available w then
        (case uart_read w of (c, w1) \<Rightarrow> drain (resp @ [char_of c]) w1)
      else (resp, w))"
  by pat_completeness auto
termination
  by (relation "measure (\<lambda>(resp, w). length (rxbuf w))")
     (auto simp: uart_read_def uart_available_def split: list.splits)

declare drain.simps [simp del]

lemma drain_future: "future (snd (drain resp w)) = future w"
proof (induction resp w rule: drain.induct)
  case (1 resp w)
  show ?case
  proof (cases "0 < uart_available w")
    case True
    obtain c w2 where r: "uart_read w = (c, w2)" by (cases "uart_read w")
    from True r have "drain resp w = drain (resp @ [char_of c]) w2"
      by (simp add: drain.simps [of resp w])
    with "1.IH" [OF True r [symmetric]] uart_read_future [OF r [symmetric]]
    show ?thesis by simp
  next
    case False
    then show ?thesis by (simp add: drain.simps [of resp w])
  qed
qed

function waitForResponse_loop :: "u32 \<Rightarrow> u32 \<Rightarrow> string \<Rightarrow> world \<Rightarrow> (string \<times> world) option" where
  "waitForResponse_loop timeout start resp w =
     (case millis w of
        None \<Rightarrow> None
      | Some (now, w1) \<Rightarrow>
          if now - start < timeout then
            (case drain resp w1 of
               (resp', w2) \<Rightarrow> waitForResponse_loop timeout start resp' w2)
          else Some (resp, w1))"
  by pat_completeness auto
termination
  by (relation "measure (\<lambda>(timeout, start, resp, w). length (future w))")
     (auto dest!: millis_future simp: case_prod_beta drain_future)

declare waitForResponse_loop.simps [simp del]

definition waitForResponse :: "u32 \<Rightarrow> world \<Rightarrow> (string \<times> world) option" where
  "waitForResponse timeout w =
     (case millis w of
        None \<Rightarrow> None
      | Some (start, w1) \<Rightarrow> waitForResponse_loop timeout start [] w1)"


section \<open>The modem lifecycle\<close>

definition powerCycleModem :: "world \<Rightarrow> world" where
  "powerCycleModem w =
     (let w = serial_println MsgPowerCycling w;
          w = pinModeOutput PIN_CELL_RST w;
          w = pinModeOutput PIN_CELL_PWRKEY w;
          w = digitalWrite PIN_CELL_RST True w;
          w = delay 200 w;
          w = digitalWrite PIN_CELL_RST False w;
          w = delay 3000 w;
          w = digitalWrite PIN_CELL_PWRKEY True w;
          w = delay 1000 w;
          w = digitalWrite PIN_CELL_PWRKEY False w;
          w = delay 5000 w
      in w)"

definition connectNetwork :: "world \<Rightarrow> (bool \<times> world) option" where
  \<open>connectNetwork w =
     (case sendAT ''ATE0'' ''OK'' 1000 w of
        None \<Rightarrow> None
      | Some (r1, w1) \<Rightarrow>
     (case sendAT ''AT+CPIN?'' ''READY'' 2000 w1 of
        None \<Rightarrow> None
      | Some (r2, w2) \<Rightarrow>
          if \<not> r2 then Some (False, w2)
          else
     (case sendAT ''AT+QIDEACT=1'' ''OK'' 5000 w2 of
        None \<Rightarrow> None
      | Some (r3, w3) \<Rightarrow>
     (case sendAT ''AT+QICSGP=1,1,"airtelgprs.com","","",1'' ''OK'' 2000 w3 of
        None \<Rightarrow> None
      | Some (r4, w4) \<Rightarrow>
          if \<not> r4 then Some (False, w4)
          else
     (case sendAT ''AT+QIACT=1'' ''OK'' 10000 w4 of
        None \<Rightarrow> None
      | Some (r5, w5) \<Rightarrow>
          if \<not> r5 then Some (False, w5) else Some (True, w5))))))\<close>

function gsm_setup_loop :: "nat \<Rightarrow> world \<Rightarrow> (bool \<times> world) option" where
  "gsm_setup_loop i w =
     (if i < 3 then
        (case connectNetwork w of
           None \<Rightarrow> None
         | Some (ok, w1) \<Rightarrow>
             if ok then Some (True, w1)
             else gsm_setup_loop (i + 1) (powerCycleModem (serial_println MsgRetrying w1)))
      else Some (False, w))"
  by pat_completeness auto
termination
  by (relation "measure (\<lambda>(i, w). 3 - i)") auto

declare gsm_setup_loop.simps [simp del]

definition gsm_setup :: "world \<Rightarrow> (bool \<times> world) option" where
  "gsm_setup w =
     (let w = uart_begin (CHUNK_SIZE + 512) w;
          w = serial_println MsgConnecting w;
          w = powerCycleModem w
      in gsm_setup_loop 0 w)"

section \<open>Download and verification\<close>

text \<open>
  \<^verbatim>\<open>long\<close>, \<^verbatim>\<open>int\<close> and \<^verbatim>\<open>size_t\<close> have 32 bits on the ESP32. \<open>fileSize\<close> and
  \<open>bytesDownloaded\<close> are integers here, with the conversions of the source written out:
  \<open>to_size_t\<close> where a value is taken as unsigned, \<open>to_long\<close> where a sum is stored in a
  \<^verbatim>\<open>long\<close>.
\<close>

definition to_size_t :: "int \<Rightarrow> int" where
  "to_size_t x = x mod 2 ^ 32"

definition to_long :: "int \<Rightarrow> int" where
  "to_long x = (x + 2 ^ 31) mod 2 ^ 32 - 2 ^ 31"

definition printProgress :: "int \<Rightarrow> int \<Rightarrow> world \<Rightarrow> world" where
  "printProgress current total' w =
     serial_println
       (MsgProgress (to_long (to_size_t (to_size_t current * 100) div to_size_t total'))
          (to_size_t current)) w"

function checksum_loop :: "string \<Rightarrow> string \<Rightarrow> string" where
  "checksum_loop remaining absorbed =
     (if remaining \<noteq> [] then
        checksum_loop (drop CHUNK_SIZE remaining) (absorbed @ take CHUNK_SIZE remaining)
      else absorbed)"
  by pat_completeness auto
termination
  by (relation "measure (\<lambda>(remaining, absorbed). length remaining)")
     (auto simp: CHUNK_SIZE_def)

declare checksum_loop.simps [simp del]

definition calculateStorageChecksum :: "world \<Rightarrow> world" where
  "calculateStorageChecksum w =
     (let w = serial_println MsgVerifying w
      in if \<not> spiffs_exists FILE_PATH w then serial_println MsgVerifyOpenFailed w
         else
           (case malloc CHUNK_SIZE w of
              (vBuf, w1) \<Rightarrow>
                if \<not> vBuf then serial_println MsgVerifyMemoryError w1
                else
                  let absorbed = checksum_loop (the (files w1 FILE_PATH)) [];
                      w2 = free CHUNK_SIZE w1
                  in serial_println (MsgMD5 absorbed) w2))"

subsection \<open>Step 6: the binary read loop and what follows it\<close>

definition INACTIVITY_TIMEOUT :: u32 where "INACTIVITY_TIMEOUT = 60000"

definition stream_toRead :: "int \<Rightarrow> int \<Rightarrow> world \<Rightarrow> int" where
  "stream_toRead fileSize bytesDownloaded w =
     (let toRead = min (int CHUNK_SIZE) (int (uart_available w))
      in if to_size_t (bytesDownloaded + toRead) > to_size_t fileSize
         then to_size_t (fileSize - bytesDownloaded) else toRead)"

definition stream_read :: "int \<Rightarrow> int \<Rightarrow> u32 \<Rightarrow> world \<Rightarrow> (int \<times> u32 \<times> world) option" where
  "stream_read fileSize bytesDownloaded lastAct w =
     (if 0 < uart_available w then
        (case uart_readBytes (nat (stream_toRead fileSize bytesDownloaded w)) w of
           (buffer, w1) \<Rightarrow>
             let len = int (length buffer)
             in if 0 < len then
                  (case file_write buffer w1 of
                     (written, w2) \<Rightarrow>
                       let bytesDownloaded' = to_long (bytesDownloaded + len)
                       in case millis w2 of
                            None \<Rightarrow> None
                          | Some (now, w3) \<Rightarrow>
                              Some (bytesDownloaded', now,
                                    if bytesDownloaded' mod 51200 = 0
                                    then printProgress bytesDownloaded' fileSize w3 else w3))
                else Some (bytesDownloaded, lastAct, w1))
      else Some (bytesDownloaded, lastAct, w))"

lemma uart_readBytes_future: "future (snd (uart_readBytes n w)) = future w"
  by (simp add: uart_readBytes_def)

lemma file_write_future: "future (snd (file_write buf w)) = future w"
  by (simp add: file_write_def Let_def split: option.splits)

lemma printProgress_future: "future (printProgress c t w) = future w"
  by (simp add: printProgress_def serial_println_def)

lemma stream_read_future:
  assumes "stream_read fileSize bytesDownloaded lastAct w = Some (b, la, w1)"
  shows "length (future w1) \<le> length (future w)"
proof (cases "0 < uart_available w")
  case False
  with assms show ?thesis by (simp add: stream_read_def)
next
  case avail: True
  obtain buffer wa where
    rb: "uart_readBytes (nat (stream_toRead fileSize bytesDownloaded w)) w = (buffer, wa)"
    by (cases "uart_readBytes (nat (stream_toRead fileSize bytesDownloaded w)) w")
  from uart_readBytes_future [of "nat (stream_toRead fileSize bytesDownloaded w)" w] rb
  have fa: "future wa = future w" by simp
  show ?thesis
  proof (cases "buffer = []")
    case True
    with assms avail rb fa show ?thesis
      by (simp add: stream_read_def)
  next
    case False
    obtain written wb where fw: "file_write buffer wa = (written, wb)"
      by (cases "file_write buffer wa")
    from file_write_future [of buffer wa] fw fa have fb: "future wb = future w" by simp
    from assms avail rb False fw obtain now wc where m: "millis wb = Some (now, wc)"
      by (cases "millis wb") (auto simp: stream_read_def Let_def)
    from assms avail rb False fw m have "future w1 = future wc"
      by (auto simp: stream_read_def Let_def printProgress_future split: if_splits)
    with millis_future [OF m] fb show ?thesis by simp
  qed
qed

function stream_loop :: "int \<Rightarrow> int \<Rightarrow> u32 \<Rightarrow> world \<Rightarrow> (int \<times> world) option" where
  "stream_loop fileSize bytesDownloaded lastAct w =
     (if bytesDownloaded < fileSize then
        (case stream_read fileSize bytesDownloaded lastAct w of
           None \<Rightarrow> None
         | Some (b, la, w1) \<Rightarrow>
             (case millis w1 of
                None \<Rightarrow> None
              | Some (now, w2) \<Rightarrow>
                  if now - la > INACTIVITY_TIMEOUT
                  then Some (b, serial_println MsgStreamTimedOut w2)
                  else stream_loop fileSize b la w2))
      else Some (bytesDownloaded, w))"
  by pat_completeness auto
termination
  by (relation "measure (\<lambda>(fileSize, bytesDownloaded, lastAct, w). length (future w))")
     (auto dest!: millis_future stream_read_future)

declare stream_loop.simps [simp del]

definition download_stream :: "int \<Rightarrow> world \<Rightarrow> world option" where
  "download_stream fileSize w =
     (case millis w of
        None \<Rightarrow> None
      | Some (lastAct, w1) \<Rightarrow>
          (case stream_loop fileSize 0 lastAct w1 of
             None \<Rightarrow> None
           | Some (bytesDownloaded, w2) \<Rightarrow>
               let w3 = free CHUNK_SIZE (file_close w2)
               in if bytesDownloaded = fileSize then
                    Some (calculateStorageChecksum
                            (serial_println (MsgDownloadSuccess bytesDownloaded fileSize) w3))
                  else
                    Some (spiffs_remove FILE_PATH
                            (serial_println MsgDeleting
                               (serial_println (MsgDownloadIncomplete bytesDownloaded fileSize) w3)))))"

definition download_binary :: "int \<Rightarrow> world \<Rightarrow> world option" where
  "download_binary fileSize w =
     (case malloc CHUNK_SIZE w of
        (buffer, w1) \<Rightarrow>
          if \<not> buffer then Some (file_close (serial_println MsgAllocFailed w1))
          else download_stream fileSize w1)"

subsection \<open>Step 5: asking the modem for the data\<close>

lemma readStringUntil_loop_future:
  "readStringUntil_loop terminator ret c w = Some (line, w') \<Longrightarrow>
     length (future w') \<le> length (future w)"
proof (induction terminator ret c w rule: readStringUntil_loop.induct)
  case (1 terminator ret c w)
  show ?case
  proof (cases "0 \<le> c \<and> c \<noteq> of_char terminator")
    case False
    with "1.prems" show ?thesis
      by (auto simp: readStringUntil_loop.simps [of terminator ret c w])
  next
    case True
    with "1.prems" obtain c' w1 where t: "timedRead w = Some (c', w1)"
      and l: "readStringUntil_loop terminator (ret @ [char_of c]) c' w1 = Some (line, w')"
      by (auto simp: readStringUntil_loop.simps [of terminator ret c w] split: option.splits)
    from "1.IH" [OF True t refl l] timedRead_future [OF t] show ?thesis by simp
  qed
qed

lemma readStringUntil_future:
  "readStringUntil terminator w = Some (line, w') \<Longrightarrow> length (future w') < length (future w)"
  by (auto simp: readStringUntil_def split: option.splits
      dest!: timedRead_future readStringUntil_loop_future)

function connect_wait_loop :: "u32 \<Rightarrow> world \<Rightarrow> (bool \<times> world) option" where
  "connect_wait_loop connectTime w =
     (case millis w of
        None \<Rightarrow> None
      | Some (now, w1) \<Rightarrow>
          if now - connectTime < 10000 then
            if 0 < uart_available w1 then
              (case readStringUntil (CHR 0x0A) w1 of
                 None \<Rightarrow> None
               | Some (line, w2) \<Rightarrow>
                   if indexOf line ''CONNECT'' \<noteq> - 1 then Some (True, w2)
                   else connect_wait_loop connectTime w2)
            else connect_wait_loop connectTime w1
          else Some (False, w1))"
  by pat_completeness auto
termination
  by (relation "measure (\<lambda>(connectTime, w). length (future w))")
     (auto dest!: millis_future readStringUntil_future)

declare connect_wait_loop.simps [simp del]

definition download_read :: "int \<Rightarrow> world \<Rightarrow> world option" where
  "download_read fileSize w =
     (let w = uart_println ''AT+QHTTPREAD=300'' w
      in case millis w of
           None \<Rightarrow> None
         | Some (connectTime, w1) \<Rightarrow>
             (case connect_wait_loop connectTime w1 of
                None \<Rightarrow> None
              | Some (connected, w2) \<Rightarrow>
                  if \<not> connected then Some (file_close (serial_println MsgNoConnect w2))
                  else download_binary fileSize w2))"

subsection \<open>Step 4: the file on SPIFFS\<close>

definition download_store :: "int \<Rightarrow> world \<Rightarrow> world option" where
  "download_store fileSize w =
     (let w = (if spiffs_exists FILE_PATH w then spiffs_remove FILE_PATH w else w)
      in case spiffs_open_write FILE_PATH w of
           (file, w1) \<Rightarrow>
             if \<not> file then Some (serial_println MsgSpiffsWriteError w1)
             else download_read fileSize w1)"

subsection \<open>Step 3: HTTP GET and the size of the file\<close>

datatype size_wait = Returned | Left bool int

function size_wait_loop :: "u32 \<Rightarrow> world \<Rightarrow> (size_wait \<times> world) option" where
  "size_wait_loop startWait w =
     (case millis w of
        None \<Rightarrow> None
      | Some (now, w1) \<Rightarrow>
          if now - startWait < 80000 then
            if 0 < uart_available w1 then
              (case readStringUntil (CHR 0x0A) w1 of
                 None \<Rightarrow> None
               | Some (line, w2) \<Rightarrow>
                   if startsWith line ''+QHTTPGET: 0,200'' then
                     (let fileSize = toInt (substring line (lastIndexOf line (CHR '','') + 1))
                      in Some (Left True fileSize,
                               serial_println (MsgTargetFileSize fileSize) w2))
                   else if startsWith line ''+QHTTPGET: ''
                           \<and> \<not> startsWith line ''+QHTTPGET: 0,200''
                   then Some (Returned, serial_println (MsgHttpGetError line) w2)
                   else size_wait_loop startWait w2)
            else size_wait_loop startWait w1
          else Some (Left False (- 1), w1))"
  by pat_completeness auto
termination
  by (relation "measure (\<lambda>(startWait, w). length (future w))")
     (auto dest!: millis_future readStringUntil_future)

declare size_wait_loop.simps [simp del]

definition download_get :: "world \<Rightarrow> world option" where
  "download_get w =
     (let w = uart_println ''AT+QHTTPGET=80'' w
      in case millis w of
           None \<Rightarrow> None
         | Some (startWait, w1) \<Rightarrow>
             (case size_wait_loop startWait w1 of
                None \<Rightarrow> None
              | Some (Returned, w2) \<Rightarrow> Some w2
              | Some (Left getSizeSuccess fileSize, w2) \<Rightarrow>
                  if \<not> getSizeSuccess \<or> fileSize \<le> 0
                  then Some (serial_println MsgGetSizeFailed w2)
                  else download_store fileSize w2))"

subsection \<open>Steps 1 and 2: preparing the modem and giving it the URL\<close>

definition downloadAndVerify :: "string \<Rightarrow> world \<Rightarrow> world option" where
  \<open>downloadAndVerify downloadUrl w =
     (let w = serial_println MsgBanner w
      in case sendAT ''ATE0'' ''OK'' 1000 w of
           None \<Rightarrow> None
         | Some (r1, w1) \<Rightarrow>
      (case sendAT ''AT+QHTTPSTOP'' ''OK'' 1000 w1 of
           None \<Rightarrow> None
         | Some (r2, w2) \<Rightarrow>
      (case sendAT ''AT+QHTTPCFG="responseheader",0'' ''OK'' 1000 w2 of
           None \<Rightarrow> None
         | Some (r3, w3) \<Rightarrow>
             let w4 = uart_println (''AT+QHTTPURL='' @ decimal (length downloadUrl) @ '',80'') w3
             in case waitForResponse 5000 w4 of
                  None \<Rightarrow> None
                | Some (resp, w5) \<Rightarrow>
                    if indexOf resp ''CONNECT'' = - 1
                    then Some (serial_println MsgUrlConnectFailed w5)
                    else
                      let w6 = uart_print downloadUrl w5
                      in case waitForResponse 5000 w6 of
                           None \<Rightarrow> None
                         | Some (resp', w7) \<Rightarrow> download_get w7)))\<close>

definition URL_BASE :: string where
  "URL_BASE = ''http://digitalpetro.s3.ap-south-1.amazonaws.com/BPCL/New+PCB+Bootcode/bootcode.bin''"

definition startDownload :: "world \<Rightarrow> world option" where
  "startDownload w =
     (case millis w of
        None \<Rightarrow> None
      | Some (now, w1) \<Rightarrow> downloadAndVerify (URL_BASE @ ''?t='' @ decimal (unat now)) w1)"


section \<open>Vocabulary of the statements\<close>

text \<open>
  \<open>effects\<close> is everything of the board but the timer and the inbound side of the UART;
  \<open>power_cycle_ops\<close> is what one power cycle does to the pins; \<open>attempts w outs w'\<close> says
  that tries of \<open>connectNetwork\<close> made one after the other from \<open>w\<close>, each failure
  followed by the retry message and a power cycle, have the outcomes \<open>outs\<close> and end
  in \<open>w'\<close>, a success ending the tries.
\<close>

definition effects ::
  "world \<Rightarrow> string list \<times> console_msg list \<times> hw_op list \<times> nat \<times> bool \<times> (string \<Rightarrow> string option) \<times> nat \<times> string option \<times> nat" where
  "effects w = (tx w, console w, hw w, uart_rxsize w, fs_mounted w, files w, fs_room w, wr_open w, heap_free w)"

definition power_cycle_ops :: "hw_op list" where
  "power_cycle_ops =
     [PinModeOutput PIN_CELL_RST, PinModeOutput PIN_CELL_PWRKEY,
      DigitalWrite PIN_CELL_RST True, Delay 200, DigitalWrite PIN_CELL_RST False, Delay 3000,
      DigitalWrite PIN_CELL_PWRKEY True, Delay 1000, DigitalWrite PIN_CELL_PWRKEY False, Delay 5000]"

fun attempts :: "world \<Rightarrow> bool list \<Rightarrow> world \<Rightarrow> bool" where
  "attempts w [] w' = (w' = w)"
| "attempts w (r # rs) w' =
     (\<exists>w1. connectNetwork w = Some (r, w1) \<and>
        (if r then rs = [] \<and> w' = w1
         else attempts (powerCycleModem (serial_println MsgRetrying w1)) rs w'))"

text \<open>
  Boards to run the firmware on: \<open>fresh_board script\<close> has just booted, with SPIFFS
  mounted and empty, and will see \<open>script\<close>. With \<open>attach_unanswered\<close> the modem says
  nothing while \<open>connectNetwork\<close> asks twice; with \<open>attach_answered\<close> it answers each of the
  five commands at once.
\<close>

definition fresh_board :: "(nat \<times> string) list \<Rightarrow> world" where
  "fresh_board script =
     \<lparr>clock = 0, future = script, rxbuf = [], tx = [], console = [], hw = [],
      uart_rxsize = 256, fs_mounted = True, files = (\<lambda>p. None), fs_room = 1048576,
      wr_open = None, heap_free = 200000\<rparr>"

definition quiet :: "nat \<Rightarrow> (nat \<times> string) list" where
  "quiet n = replicate n (0, [])"

definition attach_unanswered :: "(nat \<times> string) list" where
  "attach_unanswered = [(0, []), (1000, []), (0, []), (2000, [])]"

definition attach_answered :: "(nat \<times> string) list" where
  "attach_answered =
     (0, ''OK'') # quiet 2 @ (0, ''READY'') # quiet 5 @ (0, ''OK'') # quiet 2 @
     (0, ''OK'') # quiet 2 @ (0, ''OK'') # quiet 2"

text \<open>
  Pieces of a download. The modem answers the three preparing commands
  (\<open>prep_answered\<close>), takes the URL (\<open>url_accepted\<close>), announces a file of three bytes
  (\<open>size_announced\<close>), then either opens the data stream (\<open>stream_opened\<close>) and sends the
  bytes (\<open>payload_abc\<close>), or stays silent for ten seconds (\<open>stream_refused\<close>).
  With \<open>echo_unanswered\<close> the modem says nothing to \<^verbatim>\<open>ATE0\<close> and answers the other four
  commands of \<open>connectNetwork\<close>.
\<close>

definition prep_answered :: "(nat \<times> string) list" where
  "prep_answered = (0, ''OK'') # quiet 2 @ (0, ''OK'') # quiet 2 @ (0, ''OK'') # quiet 2"

definition url_accepted :: "(nat \<times> string) list" where
  "url_accepted = [(0, ''CONNECT''), (0, []), (5000, []), (0, ''OK''), (0, []), (5000, [])]"

definition size_announced :: "(nat \<times> string) list" where
  "size_announced = (0, ''+QHTTPGET: 0,200,3'' @ CRLF) # quiet 22"

definition stream_opened :: "(nat \<times> string) list" where
  "stream_opened = (0, ''CONNECT'' @ CRLF) # quiet 10"

definition stream_refused :: "(nat \<times> string) list" where
  "stream_refused = [(0, []), (10000, [])]"

definition payload_abc :: "(nat \<times> string) list" where
  "payload_abc = (0, ''abc'') # quiet 2"

definition echo_unanswered :: "(nat \<times> string) list" where
  "echo_unanswered =
     [(0, []), (1000, [])] @ (0, ''READY'') # quiet 5 @ (0, ''OK'') # quiet 2 @
     (0, ''OK'') # quiet 2 @ (0, ''OK'') # quiet 2"

text \<open>
  \<open>stream_reach fileSize s0 s\<close>: the binary read loop, started in the state \<open>s0\<close> (bytes
  downloaded, time of the last activity, board), comes to the head of the loop in
  the state \<open>s\<close>. \<open>opened_board pending script\<close> is a fresh board on which the file has been
  opened for writing and the bytes \<open>pending\<close> wait in the receive buffer.
\<close>

inductive stream_reach :: "int \<Rightarrow> int \<times> u32 \<times> world \<Rightarrow> int \<times> u32 \<times> world \<Rightarrow> bool"
  for fileSize :: int where
  start: "stream_reach fileSize s s"
| iterate: "stream_reach fileSize s (b, la, w) \<Longrightarrow> b < fileSize \<Longrightarrow>
     stream_read fileSize b la w = Some (b', la', w1) \<Longrightarrow> millis w1 = Some (now, w2) \<Longrightarrow>
     \<not> now - la' > INACTIVITY_TIMEOUT \<Longrightarrow> stream_reach fileSize s (b', la', w2)"

definition opened_board :: "string \<Rightarrow> (nat \<times> string) list \<Rightarrow> world" where
  "opened_board pending script =
     (snd (spiffs_open_write FILE_PATH (fresh_board script)))\<lparr>rxbuf := pending\<rparr>"

text \<open>
  \<open>ticks script\<close> counts the looks at the timer at which it will have advanced;
  \<open>pending w\<close> is every inbound byte not yet read, received already or still to come.
  \<open>time_of script\<close> is the time that passes over the looks at the timer of \<open>script\<close>, in
  milliseconds, and \<open>took k w\<close> is the board \<open>w\<close> after \<open>k\<close> bytes have been taken from its
  receive buffer with one look at the timer for each. \<open>read_line w line w'\<close>: \<open>line\<close> is
  a piece of the inbound stream of \<open>w\<close> without a line feed, ending at a line feed or
  where the stream stood still, and \<open>w'\<close> has everything after it still to read.
  \<open>size_wait_post startWait w r w'\<close> is what the wait for the size of the file, begun at
  \<open>startWait\<close> on the board \<open>w\<close>, has done when it ends with \<open>r\<close> on the board \<open>w'\<close>: nothing
  sent, nothing stored, and either the error line printed (\<open>Returned\<close>), or the size
  printed as read from a line with the success prefix, the line in both cases one
  read from the inbound stream, or nothing printed and the 80 seconds over.
  \<open>get_rejected\<close> is a modem that answers the GET with an \<^verbatim>\<open>OK\<close> line and
  then an error status.
\<close>

definition ticks :: "(nat \<times> string) list \<Rightarrow> nat" where
  "ticks script = length (filter (\<lambda>e. 0 < fst e) script)"

definition pending :: "world \<Rightarrow> string" where
  "pending w = rxbuf w @ concat (map snd (future w))"





definition get_rejected :: "(nat \<times> string) list" where
  "get_rejected = (0, ''OK'' @ CRLF @ ''+QHTTPGET: 702'' @ CRLF) # quiet 23"

text \<open>
  \<open>keeps_time window n w\<close>: on the board \<open>w\<close> the timer will advance at \<open>n\<close> looks at
  least, and never by so much in one step that a wait of \<open>window\<close> milliseconds could
  miss its end through the wrap of the 32-bit timer. \<open>line_wait_fuel window start w\<close>
  is the number of such looks after which a wait for a line that began at \<open>start\<close> is
  sure to be over. \<open>dribble n\<close> is a modem that sends one letter with every millisecond
  and never a line feed, \<open>lone_byte\<close> a board that receives one letter and then nothing.
\<close>

definition line_wait_fuel :: "nat \<Rightarrow> u32 \<Rightarrow> world \<Rightarrow> nat" where
  "line_wait_fuel window start w =
     (if unat (clock w - start) < window then Suc window - unat (clock w - start)
      else window + 2)
     + 83000 * length (pending w)"

definition keeps_time :: "nat \<Rightarrow> nat \<Rightarrow> world \<Rightarrow> bool" where
  "keeps_time window n w =
     (n \<le> ticks (future w) \<and> (\<forall>e\<in>set (future w). fst e + window < 2 ^ 32))"

definition dribble :: "nat \<Rightarrow> (nat \<times> string) list" where
  "dribble n = replicate n (1, ''x'')"

definition lone_byte :: world where
  "lone_byte = fresh_board ((1, ''x'') # replicate 163002 (1, []))"


section \<open>Running the firmware on a given board\<close>

text \<open>
  The equations that let the simplifier run the firmware on a board whose script is
  written out.
\<close>

lemma replicate_numeral: "replicate (numeral k) x = x # replicate (pred_numeral k) x"
  by (simp add: numeral_eq_Suc)

lemmas board_simps =
  fresh_board_def quiet_def replicate_numeral millis_def delay_def serial_println_def
  pinModeOutput_def digitalWrite_def uart_begin_def uart_print_def uart_println_def
  uart_available_def uart_read_def uart_readBytes_def Let_def

lemmas script_simps = prep_answered_def url_accepted_def size_announced_def stream_opened_def
  stream_refused_def payload_abc_def get_rejected_def attach_unanswered_def attach_answered_def
  echo_unanswered_def

lemmas string_simps = c_str_def indexOf_def startsWith_def lastIndexOf_def substring_def toInt_def
  isspace_def isdigit_def LONG_MAX_def LONG_MIN_def decimal.simps char_of_def CRLF_def

lemmas stream_simps = STREAM_TIMEOUT_def timedRead_loop.simps timedRead_def
  readStringUntil_loop.simps readStringUntil_def

lemmas fs_simps = spiffs_exists_def spiffs_remove_def spiffs_open_write_def file_write_def
  file_close_def malloc_def free_def FILE_PATH_def CHUNK_SIZE_def

lemmas at_simps = sendAT_def sendAT_loop.simps drain.simps waitForResponse_loop.simps
  waitForResponse_def

lemmas lifecycle_simps = powerCycleModem_def connectNetwork_def gsm_setup_loop.simps
  gsm_setup_def

lemmas download_simps = to_size_t_def to_long_def printProgress_def checksum_loop.simps
  calculateStorageChecksum_def INACTIVITY_TIMEOUT_def stream_toRead_def stream_read_def
  stream_loop.simps download_stream_def download_binary_def connect_wait_loop.simps
  download_read_def download_store_def size_wait_loop.simps download_get_def
  downloadAndVerify_def

lemmas run_simps = opened_board_def script_simps board_simps string_simps stream_simps fs_simps at_simps
  lifecycle_simps download_simps


section \<open>Basic facts about the board and the AT engine\<close>

lemma millis_effects: "millis w = Some (t, w1) \<Longrightarrow> effects w1 = effects w"
  by (auto simp: millis_def effects_def Let_def split: list.splits)

lemma uart_read_effects: "uart_read w = (c, w1) \<Longrightarrow> effects w1 = effects w"
  by (auto simp: uart_read_def effects_def split: list.splits)

lemma millis_pending: "millis w = Some (t, w1) \<Longrightarrow> pending w1 = pending w"
  by (auto simp: millis_def pending_def Let_def split: list.splits)



lemma uart_read_clock: "uart_read w = (c, w1) \<Longrightarrow> clock w1 = clock w"
  by (auto simp: uart_read_def split: list.splits)

lemma unat_elapsed:
  fixes c s :: u32
  assumes "unat (c - s) + d < 2 ^ 32"
  shows "unat (c + of_nat d - s) = unat (c - s) + d"
proof -
  have e: "c + of_nat d - s = (c - s) + of_nat d" by simp
  have "unat ((c - s) + of_nat d) = (unat (c - s) + unat (of_nat d :: u32)) mod 2 ^ 32"
    using unat_word_ariths(1) [of "c - s" "of_nat d"] by simp
  also have "\<dots> = (unat (c - s) + d) mod 2 ^ 32"
    by (simp add: unat_of_nat mod_add_right_eq)
  also from assms have "\<dots> = unat (c - s) + d" by simp
  finally show ?thesis unfolding e .
qed

lemma ticks_Cons: "ticks ((d, bs) # rest) = (if 0 < d then Suc (ticks rest) else ticks rest)"
  by (simp add: ticks_def)

lemma millis_poll:
  assumes "0 < ticks (future w)"
  obtains d bs rest w1 where "future w = (d, bs) # rest"
    "millis w = Some (clock w + of_nat d, w1)" "clock w1 = clock w + of_nat d" "future w1 = rest"
    "d + ticks rest \<ge> ticks (future w)"
proof -
  from assms obtain d bs rest where f: "future w = (d, bs) # rest"
    by (cases "future w") (auto simp: ticks_def)
  let ?w1 = "w\<lparr>clock := clock w + of_nat d, future := rest, rxbuf := rxbuf w @ bs\<rparr>"
  have "millis w = Some (clock w + of_nat d, ?w1)" by (simp add: millis_def f Let_def)
  moreover have "d + ticks rest \<ge> ticks (future w)" by (simp add: f ticks_Cons)
  ultimately show ?thesis using f by (intro that [of d bs rest ?w1]) simp_all
qed






lemma sendAT_loop_effects:
  "sendAT_loop expected timeout start resp w = Some (ok, resp', w') \<Longrightarrow> effects w' = effects w"
proof (induction expected timeout start resp w rule: sendAT_loop.induct)
  case (1 expected timeout start resp w)
  from "1.prems" obtain now w1 where m: "millis w = Some (now, w1)"
    by (auto simp: sendAT_loop.simps [of expected timeout start resp w] split: option.splits)
  note e1 = millis_effects [OF m]
  show ?case
  proof (cases "now - start < timeout")
    case False
    with "1.prems" m e1 show ?thesis
      by (simp add: sendAT_loop.simps [of expected timeout start resp w])
  next
    case inwin: True
    show ?thesis
    proof (cases "0 < uart_available w1")
      case False
      with "1.prems" m inwin
      have "sendAT_loop expected timeout start resp w1 = Some (ok, resp', w')"
        by (simp add: sendAT_loop.simps [of expected timeout start resp w])
      from "1.IH"(2) [OF m refl inwin False this] e1 show ?thesis by simp
    next
      case avail: True
      obtain c w2 where r: "uart_read w1 = (c, w2)" by (cases "uart_read w1")
      note e2 = uart_read_effects [OF r]
      show ?thesis
      proof (cases "indexOf (resp @ [char_of c]) expected \<noteq> - 1")
        case True
        with "1.prems" m inwin avail r e1 e2 show ?thesis
          by (simp add: sendAT_loop.simps [of expected timeout start resp w])
      next
        case False
        with "1.prems" m inwin avail r
        have "sendAT_loop expected timeout start (resp @ [char_of c]) w2 = Some (ok, resp', w')"
          by (simp add: sendAT_loop.simps [of expected timeout start resp w])
        from "1.IH"(1) [OF m refl inwin avail r [symmetric] refl _ this] False e1 e2
        show ?thesis by simp
      qed
    qed
  qed
qed

lemma sendAT_effects:
  assumes "sendAT cmd expected timeout w = Some (ok, w')"
  shows "effects w' = effects (if cmd \<noteq> [] then uart_println cmd w else w)"
proof -
  let ?w0 = "if cmd \<noteq> [] then uart_println cmd w else w"
  from assms obtain start w1 resp where m: "millis ?w0 = Some (start, w1)"
    and l: "sendAT_loop expected timeout start [] w1 = Some (ok, resp, w')"
    by (auto simp: sendAT_def Let_def split: option.splits if_splits)
  from millis_effects [OF m] sendAT_loop_effects [OF l] show ?thesis by simp
qed

lemma sendAT_console: "sendAT cmd expected timeout w = Some (ok, w') \<Longrightarrow> console w' = console w"
  by (drule sendAT_effects) (auto simp: effects_def uart_println_def split: if_splits)

lemma sendAT_hw: "sendAT cmd expected timeout w = Some (ok, w') \<Longrightarrow> hw w' = hw w"
  by (drule sendAT_effects) (auto simp: effects_def uart_println_def split: if_splits)

lemma sendAT_tx:
  "sendAT cmd expected timeout w = Some (ok, w') \<Longrightarrow> cmd \<noteq> [] \<Longrightarrow> tx w' = tx w @ [cmd @ CRLF]"
  by (drule sendAT_effects) (auto simp: effects_def uart_println_def split: if_splits)

lemma sendAT_loop_returns:
  "unat (clock w - start) \<le> unat timeout \<Longrightarrow>
   unat timeout < unat (clock w - start) + ticks (future w) \<Longrightarrow>
   \<forall>e\<in>set (future w). fst e + unat timeout < 2 ^ 32 \<Longrightarrow>
   sendAT_loop expected timeout start resp w \<noteq> None"
proof (induction expected timeout start resp w rule: sendAT_loop.induct)
  case (1 expected timeout start resp w)
  from "1.prems"(1,2) have "0 < ticks (future w)" by simp
  then obtain d bs rest w1 where f: "future w = (d, bs) # rest"
    and m: "millis w = Some (clock w + of_nat d, w1)"
    and c1: "clock w1 = clock w + of_nat d" and f1: "future w1 = rest"
    and tk: "d + ticks rest \<ge> ticks (future w)"
    by (rule millis_poll)
  let ?now = "clock w + of_nat d"
  from "1.prems"(3) f have d: "d + unat timeout < 2 ^ 32" by simp
  with "1.prems"(1) have el: "unat (?now - start) = unat (clock w - start) + d"
    by (intro unat_elapsed) simp
  from "1.prems"(3) f f1 have st1: "\<forall>e\<in>set (future w1). fst e + unat timeout < 2 ^ 32"
    by simp
  show ?case
  proof (cases "?now - start < timeout")
    case False
    with m show ?thesis by (simp add: sendAT_loop.simps [of expected timeout start resp w])
  next
    case inwin: True
    then have lt: "unat (?now - start) < unat timeout" by (simp add: word_less_nat_alt)
    from lt el tk "1.prems"(2) f1 c1
    have pre1: "unat (clock w1 - start) \<le> unat timeout"
      "unat timeout < unat (clock w1 - start) + ticks (future w1)"
      by simp_all
    show ?thesis
    proof (cases "0 < uart_available w1")
      case False
      from "1.IH"(2) [OF m refl inwin False pre1 st1] m inwin False show ?thesis
        by (simp add: sendAT_loop.simps [of expected timeout start resp w])
    next
      case avail: True
      obtain c w2 where r: "uart_read w1 = (c, w2)" by (cases "uart_read w1")
      from r have w2: "clock w2 = clock w1" "future w2 = future w1"
        by (auto simp: uart_read_def split: list.splits)
      show ?thesis
      proof (cases "indexOf (resp @ [char_of c]) expected \<noteq> - 1")
        case True
        with m inwin avail r show ?thesis
          by (simp add: sendAT_loop.simps [of expected timeout start resp w])
      next
        case False
        from pre1 st1 w2 have pre2: "unat (clock w2 - start) \<le> unat timeout"
          "unat timeout < unat (clock w2 - start) + ticks (future w2)"
          "\<forall>e\<in>set (future w2). fst e + unat timeout < 2 ^ 32"
          by simp_all
        from "1.IH"(1) [OF m refl inwin avail r [symmetric] refl _ pre2] False
          m inwin avail r show ?thesis
          by (simp add: sendAT_loop.simps [of expected timeout start resp w])
      qed
    qed
  qed
qed

lemma stream_toRead_min:
  assumes "0 \<le> b" "b < fileSize" "fileSize \<le> LONG_MAX"
  shows "stream_toRead fileSize b w
         = min (min (int CHUNK_SIZE) (int (uart_available w))) (fileSize - b)"
proof -
  let ?t = "min (int CHUNK_SIZE) (int (uart_available w))"
  have t: "0 \<le> ?t" "?t \<le> 4096" by (simp_all add: CHUNK_SIZE_def)
  from assms t have r1: "to_size_t (b + ?t) = b + ?t" "to_size_t fileSize = fileSize"
    "to_size_t (fileSize - b) = fileSize - b"
    by (simp_all add: to_size_t_def LONG_MAX_def)
  show ?thesis
    unfolding stream_toRead_def Let_def r1 by (simp add: min_def)
qed

lemma to_long_id: "- 2147483648 \<le> x \<Longrightarrow> x \<le> 2147483647 \<Longrightarrow> to_long x = x"
  by (simp add: to_long_def)

lemma ticks_replicate: "ticks (replicate n (Suc d, bs)) = n"
  by (induction n) (simp_all add: ticks_def)

lemma concat_replicate_Nil: "concat (replicate n []) = []"
  by (induction n) simp_all


section \<open>The waits return\<close>

text \<open>
  Each wait of the firmware returns on every script that is long enough: the value of
  the loop is not \<open>None\<close> once the timer will advance often enough, no single step
  reaching round the 32-bit timer.
\<close>

lemma drain_clock: "clock (snd (drain resp w)) = clock w"
proof (induction resp w rule: drain.induct)
  case (1 resp w)
  show ?case
  proof (cases "0 < uart_available w")
    case True
    obtain c w2 where r: "uart_read w = (c, w2)" by (cases "uart_read w")
    from True r have "drain resp w = drain (resp @ [char_of c]) w2"
      by (simp add: drain.simps [of resp w])
    with "1.IH" [OF True r [symmetric]] uart_read_clock [OF r]
    show ?thesis by simp
  next
    case False
    then show ?thesis by (simp add: drain.simps [of resp w])
  qed
qed

lemma waitForResponse_loop_returns:
  "unat (clock w - start) \<le> unat timeout \<Longrightarrow>
   unat timeout < unat (clock w - start) + ticks (future w) \<Longrightarrow>
   \<forall>e\<in>set (future w). fst e + unat timeout < 2 ^ 32 \<Longrightarrow>
   waitForResponse_loop timeout start resp w \<noteq> None"
proof (induction timeout start resp w rule: waitForResponse_loop.induct)
  case (1 timeout start resp w)
  from "1.prems"(1,2) have "0 < ticks (future w)" by simp
  then obtain d bs rest w1 where f: "future w = (d, bs) # rest"
    and m: "millis w = Some (clock w + of_nat d, w1)"
    and c1: "clock w1 = clock w + of_nat d" and f1: "future w1 = rest"
    and tk: "d + ticks rest \<ge> ticks (future w)"
    by (rule millis_poll)
  let ?now = "clock w + of_nat d"
  from "1.prems"(3) f have d: "d + unat timeout < 2 ^ 32" by simp
  with "1.prems"(1) have el: "unat (?now - start) = unat (clock w - start) + d"
    by (intro unat_elapsed) simp
  show ?case
  proof (cases "?now - start < timeout")
    case False
    with m show ?thesis by (simp add: waitForResponse_loop.simps [of timeout start resp w])
  next
    case inwin: True
    then have lt: "unat (?now - start) < unat timeout" by (simp add: word_less_nat_alt)
    obtain resp' w2 where dr: "drain resp w1 = (resp', w2)" by (cases "drain resp w1")
    from drain_clock [of resp w1] drain_future [of resp w1] dr
    have w2: "clock w2 = clock w1" "future w2 = future w1" by simp_all
    from lt el tk "1.prems"(2,3) f f1 c1 w2
    have pre: "unat (clock w2 - start) \<le> unat timeout"
      "unat timeout < unat (clock w2 - start) + ticks (future w2)"
      "\<forall>e\<in>set (future w2). fst e + unat timeout < 2 ^ 32"
      by simp_all
    from "1.IH" [OF m refl inwin dr [symmetric] pre] m inwin dr show ?thesis
      by (simp add: waitForResponse_loop.simps [of timeout start resp w])
  qed
qed

lemma waitForResponse_returns:
  assumes "unat timeout + 1 < ticks (future w)"
    and "\<forall>e\<in>set (future w). fst e + unat timeout < 2 ^ 32"
  shows "waitForResponse timeout w \<noteq> None"
proof -
  from assms have "0 < ticks (future w)" by simp
  then obtain d bs rest w1 where f: "future w = (d, bs) # rest"
    and m: "millis w = Some (clock w + of_nat d, w1)"
    and c1: "clock w1 = clock w + of_nat d" and f1: "future w1 = rest"
    by (rule millis_poll)
  from f have tk: "ticks (future w) \<le> Suc (ticks rest)" by (simp add: ticks_Cons)
  from assms f f1 have st: "\<forall>e\<in>set (future w1). fst e + unat timeout < 2 ^ 32" by auto
  from c1 have "unat (clock w1 - (clock w + of_nat d)) = 0" by simp
  with assms tk f1 have "unat (clock w1 - (clock w + of_nat d)) \<le> unat timeout"
    "unat timeout < unat (clock w1 - (clock w + of_nat d)) + ticks (future w1)"
    by simp_all
  from waitForResponse_loop_returns [OF this st, of "[]"] m
  show ?thesis by (simp add: waitForResponse_def)
qed

lemma sendAT_returns:
  assumes "unat timeout + 1 < ticks (future w)"
    and "\<forall>e\<in>set (future w). fst e + unat timeout < 2 ^ 32"
  shows "sendAT cmd expected timeout w \<noteq> None"
proof -
  let ?w0 = "if cmd \<noteq> [] then uart_println cmd w else w"
  have f0: "future ?w0 = future w" "clock ?w0 = clock w" by (simp_all add: uart_println_def)
  from assms f0 have "0 < ticks (future ?w0)" by simp
  then obtain d bs rest w1 where f: "future ?w0 = (d, bs) # rest"
    and m: "millis ?w0 = Some (clock ?w0 + of_nat d, w1)"
    and c1: "clock w1 = clock ?w0 + of_nat d" and f1: "future w1 = rest"
    by (rule millis_poll)
  from f f0 have tk: "ticks (future w) \<le> Suc (ticks rest)" by (simp add: ticks_Cons)
  from assms f f0 f1 have st: "\<forall>e\<in>set (future w1). fst e + unat timeout < 2 ^ 32" by auto
  from c1 have "unat (clock w1 - (clock ?w0 + of_nat d)) = 0" by simp
  with assms tk f1 have "unat (clock w1 - (clock ?w0 + of_nat d)) \<le> unat timeout"
    "unat timeout < unat (clock w1 - (clock ?w0 + of_nat d)) + ticks (future w1)"
    by simp_all
  from sendAT_loop_returns [OF this st, of expected "[]"]
  obtain r where lr: "sendAT_loop expected timeout (clock ?w0 + of_nat d) [] w1 = Some r"
    by auto
  have unfold: "sendAT cmd expected timeout w =
      (case millis ?w0 of
         None \<Rightarrow> None
       | Some (start, w1) \<Rightarrow>
           (case sendAT_loop expected timeout start [] w1 of
              None \<Rightarrow> None
            | Some (ok, resp, w2) \<Rightarrow> Some (ok, w2)))"
    by (simp add: sendAT_def Let_def)
  show ?thesis
    unfolding unfold m by (simp add: lr split: prod.splits)
qed

lemma stream_read_returns:
  assumes b: "0 \<le> b" "b < fileSize" "fileSize \<le> LONG_MAX" and tk: "0 < ticks (future w)"
  obtains (idle) "stream_read fileSize b la w = Some (b, la, w)"
  | (busy) b' d bs rest w1 where
      "stream_read fileSize b la w = Some (b', clock w + of_nat d, w1)"
      "b < b'" "b' \<le> fileSize" "future w = (d, bs) # rest" "future w1 = rest"
      "clock w1 = clock w + of_nat d"
proof (cases "0 < uart_available w")
  case False
  then have "stream_read fileSize b la w = Some (b, la, w)" by (simp add: stream_read_def)
  then show ?thesis by (rule idle)
next
  case avail: True
  define n where "n = nat (stream_toRead fileSize b w)"
  have tr: "stream_toRead fileSize b w
            = min (min (int CHUNK_SIZE) (int (uart_available w))) (fileSize - b)"
    by (rule stream_toRead_min [OF b])
  from avail b have pos: "0 < stream_toRead fileSize b w"
    unfolding tr by (simp add: CHUNK_SIZE_def)
  have le1: "stream_toRead fileSize b w \<le> int (length (rxbuf w))"
    unfolding tr by (simp add: uart_available_def min.coboundedI1)
  have le2: "stream_toRead fileSize b w \<le> fileSize - b"
    unfolding tr by simp
  from pos le1 le2 have n: "0 < n" "n \<le> length (rxbuf w)" "b + int n \<le> fileSize"
    unfolding n_def by simp_all
  let ?buf = "take n (rxbuf w)"
  let ?wa = "w\<lparr>rxbuf := drop n (rxbuf w)\<rparr>"
  from n have mn: "min (length (rxbuf w)) n = n" and ne: "rxbuf w \<noteq> []" by auto
  obtain written wb where fw: "file_write ?buf ?wa = (written, wb)"
    by (cases "file_write ?buf ?wa")
  then have wb: "future wb = future w" "clock wb = clock w"
    by (auto simp: file_write_def Let_def split: option.splits)
  from tk wb have "0 < ticks (future wb)" by simp
  then obtain d bs rest wc where f: "future wb = (d, bs) # rest"
    and m: "millis wb = Some (clock wb + of_nat d, wc)"
    and cc: "clock wc = clock wb + of_nat d" and fc: "future wc = rest"
    by (rule millis_poll)
  let ?b' = "to_long (b + int n)"
  let ?w1 = "if ?b' mod 51200 = 0 then printProgress ?b' fileSize wc else wc"
  from avail n_def [symmetric] n(1) fw mn ne m
  have r: "stream_read fileSize b la w = Some (?b', clock wb + of_nat d, ?w1)"
    by (simp add: stream_read_def uart_readBytes_def Let_def)
  from b n(3) have tl: "?b' = b + int n"
    by (intro to_long_id) (simp_all add: LONG_MAX_def)
  have w1: "future ?w1 = rest" "clock ?w1 = clock w + of_nat d"
    using fc cc wb by (simp_all add: printProgress_def serial_println_def)
  from r wb tl have r': "stream_read fileSize b la w = Some (b + int n, clock w + of_nat d, ?w1)"
    by simp
  from n have "b < b + int n" "b + int n \<le> fileSize" by simp_all
  with r' f wb w1 show ?thesis by (intro busy [of "b + int n" d ?w1 bs rest]) simp_all
qed

lemma unat_INACTIVITY: "unat INACTIVITY_TIMEOUT = 60000"
  by (simp add: INACTIVITY_TIMEOUT_def)

lemma stream_loop_returns:
  "0 \<le> b \<Longrightarrow> b \<le> fileSize \<Longrightarrow> fileSize \<le> LONG_MAX \<Longrightarrow>
   unat (clock w - la) \<le> 60000 \<Longrightarrow>
   60001 - unat (clock w - la) + nat (fileSize - b) * 60002 < ticks (future w) \<Longrightarrow>
   \<forall>e\<in>set (future w). fst e + 60000 < 2 ^ 32 \<Longrightarrow>
   stream_loop fileSize b la w \<noteq> None"
proof (induction fileSize b la w rule: stream_loop.induct)
  case (1 fileSize b la w)
  note b0 = "1.prems"(1) and ble = "1.prems"(2) and fmax = "1.prems"(3)
    and e60 = "1.prems"(4) and fuel = "1.prems"(5) and steps = "1.prems"(6)
  show ?case
  proof (cases "b < fileSize")
    case False
    then show ?thesis by (simp add: stream_loop.simps [of fileSize b la w])
  next
    case lt: True
    then have R: "0 < nat (fileSize - b)" by simp
    from fuel have tk0: "0 < ticks (future w)" by simp
    from b0 lt fmax tk0 show ?thesis
    proof (cases rule: stream_read_returns [where la = la])
      case idle
      from tk0 obtain d bs rest w1 where f: "future w = (d, bs) # rest"
        and m: "millis w = Some (clock w + of_nat d, w1)"
        and c1: "clock w1 = clock w + of_nat d" and f1: "future w1 = rest"
        and tk: "d + ticks rest \<ge> ticks (future w)"
        by (rule millis_poll)
      let ?now = "clock w + of_nat d"
      from steps f have d: "d + 60000 < 2 ^ 32" by simp
      with e60 have el: "unat (?now - la) = unat (clock w - la) + d"
        by (intro unat_elapsed) simp
      show ?thesis
      proof (cases "?now - la > INACTIVITY_TIMEOUT")
        case True
        with lt idle m show ?thesis by (simp add: stream_loop.simps [of fileSize b la w])
      next
        case False
        then have le: "unat (?now - la) \<le> 60000"
          by (simp add: word_less_nat_alt unat_INACTIVITY)
        from le el c1 have p4: "unat (clock w1 - la) \<le> 60000" by simp
        from el tk fuel f1 c1 le
        have p5: "60001 - unat (clock w1 - la) + nat (fileSize - b) * 60002 < ticks (future w1)"
          by simp
        from steps f f1 have p6: "\<forall>e\<in>set (future w1). fst e + 60000 < 2 ^ 32" by simp
        from "1.IH" [OF lt idle refl refl m refl False b0 ble fmax p4 p5 p6]
          lt idle m False show ?thesis
          by (simp add: stream_loop.simps [of fileSize b la w])
      qed
    next
      case (busy b' d1 bs1 rest1 w1)
      let ?la' = "clock w + of_nat d1"
      from busy(4) have tk1: "ticks (future w) \<le> Suc (ticks rest1)" by (simp add: ticks_Cons)
      from R have "60002 \<le> nat (fileSize - b) * 60002" by simp
      with fuel tk1 e60 busy(5) have "0 < ticks (future w1)" by simp
      then obtain d2 bs2 rest2 w2 where f2: "future w1 = (d2, bs2) # rest2"
        and m2: "millis w1 = Some (clock w1 + of_nat d2, w2)"
        and c2: "clock w2 = clock w1 + of_nat d2" and fr2: "future w2 = rest2"
        by (rule millis_poll)
      from f2 have tk2: "ticks (future w1) \<le> Suc (ticks rest2)" by (simp add: ticks_Cons)
      from steps busy(4,5) f2 have d2: "d2 + 60000 < 2 ^ 32" by auto
      let ?now = "clock w1 + of_nat d2"
      from busy(6) have "unat (clock w1 - ?la') = 0" by simp
      with d2 have el: "unat (?now - ?la') = d2"
        using unat_elapsed [of "clock w1" ?la' d2] by simp
      show ?thesis
      proof (cases "?now - ?la' > INACTIVITY_TIMEOUT")
        case True
        with lt busy(1) m2 show ?thesis by (simp add: stream_loop.simps [of fileSize b la w])
      next
        case False
        then have le: "unat (?now - ?la') \<le> 60000"
          by (simp add: word_less_nat_alt unat_INACTIVITY)
        from busy(2) b0 have q1: "0 \<le> b'" by simp
        from le c2 have q4: "unat (clock w2 - ?la') \<le> 60000" by simp
        from busy(2,3) have "Suc (nat (fileSize - b')) \<le> nat (fileSize - b)" by simp
        then have "nat (fileSize - b') * 60002 + 60002 \<le> nat (fileSize - b) * 60002" by simp
        with fuel e60 tk1 tk2 busy(5) fr2 c2 el
        have q5: "60001 - unat (clock w2 - ?la') + nat (fileSize - b') * 60002 < ticks (future w2)"
          by simp
        from steps busy(4,5) f2 fr2 have q6: "\<forall>e\<in>set (future w2). fst e + 60000 < 2 ^ 32"
          by auto
        from "1.IH" [OF lt busy(1) refl refl m2 refl False q1 busy(3) fmax q4 q5 q6]
          lt busy(1) m2 False show ?thesis
          by (simp add: stream_loop.simps [of fileSize b la w])
      qed
    qed
  qed
qed

lemma of_char_nonneg: "(0::int) \<le> of_char ch"
  by (metis of_nat_of_char of_nat_0_le_iff)

lemma timedRead_loop_returns:
  "unat (clock w - s) < 1000 \<Longrightarrow> 1000 - unat (clock w - s) \<le> ticks (future w) \<Longrightarrow>
   \<forall>e\<in>set (future w). fst e + 1000 < 2 ^ 32 \<Longrightarrow>
   \<exists>c w'. timedRead_loop s w = Some (c, w')
     \<and> ticks (future w) \<le> ticks (future w') + (1000 - unat (clock w - s))
     \<and> length (pending w') \<le> length (pending w)
     \<and> (0 \<le> c \<longrightarrow> length (pending w) = Suc (length (pending w')))
     \<and> (rxbuf w \<noteq> [] \<longrightarrow> 0 \<le> c)
     \<and> set (future w') \<subseteq> set (future w)"
proof (induction s w rule: timedRead_loop.induct)
  case (1 s w)
  note e = "1.prems"(1) and fuel = "1.prems"(2) and steps = "1.prems"(3)
  show ?case
  proof (cases "rxbuf w")
    case (Cons ch cs)
    then have r: "uart_read w = (of_char ch, w\<lparr>rxbuf := cs\<rparr>)" by (simp add: uart_read_def)
    have nn: "(0::int) \<le> of_char ch" by (rule of_char_nonneg)
    from r nn have "timedRead_loop s w = Some (of_char ch, w\<lparr>rxbuf := cs\<rparr>)"
      by (simp add: timedRead_loop.simps [of s w])
    with Cons nn show ?thesis by (simp add: pending_def)
  next
    case Nil
    then have r: "uart_read w = (- 1, w)" by (simp add: uart_read_def)
    from e fuel have "0 < ticks (future w)" by simp
    then obtain d bs rest w1 where f: "future w = (d, bs) # rest"
      and m: "millis w = Some (clock w + of_nat d, w1)"
      and c1: "clock w1 = clock w + of_nat d" and f1: "future w1 = rest"
      and tk: "d + ticks rest \<ge> ticks (future w)"
      by (rule millis_poll)
    from f have tk1: "ticks (future w) \<le> Suc (ticks rest)" by (simp add: ticks_Cons)
    note p1 = millis_pending [OF m]
    let ?now = "clock w + of_nat d"
    from steps f have d: "d + 1000 < 2 ^ 32" by simp
    with e have el: "unat (?now - s) = unat (clock w - s) + d"
      by (intro unat_elapsed) simp
    show ?thesis
    proof (cases "?now - s < STREAM_TIMEOUT")
      case False
      with r m have "timedRead_loop s w = Some (- 1, w1)"
        by (simp add: timedRead_loop.simps [of s w])
      with Nil p1 f f1 tk1 e show ?thesis by auto
    next
      case True
      then have lt: "unat (?now - s) < 1000"
        by (simp add: word_less_nat_alt STREAM_TIMEOUT_def)
      from lt c1 have q1: "unat (clock w1 - s) < 1000" by simp
      from el tk fuel f1 c1 have q2: "1000 - unat (clock w1 - s) \<le> ticks (future w1)" by simp
      from steps f f1 have q3: "\<forall>e\<in>set (future w1). fst e + 1000 < 2 ^ 32" by simp
      have neg: "\<not> (0::int) \<le> - 1" by simp
      from "1.IH" [OF r [symmetric] neg m refl True q1 q2 q3]
      obtain c w' where res: "timedRead_loop s w1 = Some (c, w')"
        "ticks (future w1) \<le> ticks (future w') + (1000 - unat (clock w1 - s))"
        "length (pending w') \<le> length (pending w1)"
        "0 \<le> c \<longrightarrow> length (pending w1) = Suc (length (pending w'))"
        "set (future w') \<subseteq> set (future w1)"
        by blast
      from r m True res(1) have "timedRead_loop s w = Some (c, w')"
        by (simp add: timedRead_loop.simps [of s w])
      moreover from res(2) tk f1 c1 el lt
      have "ticks (future w) \<le> ticks (future w') + (1000 - unat (clock w - s))" by simp
      moreover from res(5) f f1 have "set (future w') \<subseteq> set (future w)" by auto
      ultimately show ?thesis using res(3,4) p1 Nil by auto
    qed
  qed
qed

lemma timedRead_returns:
  assumes "1001 \<le> ticks (future w)" and steps: "\<forall>e\<in>set (future w). fst e + 1000 < 2 ^ 32"
  shows "\<exists>c w'. timedRead w = Some (c, w')
     \<and> ticks (future w) \<le> ticks (future w') + 1001
     \<and> length (pending w') \<le> length (pending w)
     \<and> (0 \<le> c \<longrightarrow> length (pending w) = Suc (length (pending w')))
     \<and> (rxbuf w \<noteq> [] \<longrightarrow> 0 \<le> c)
     \<and> set (future w') \<subseteq> set (future w)"
proof -
  from assms have "0 < ticks (future w)" by simp
  then obtain d bs rest w1 where f: "future w = (d, bs) # rest"
    and m: "millis w = Some (clock w + of_nat d, w1)"
    and c1: "clock w1 = clock w + of_nat d" and f1: "future w1 = rest"
    by (rule millis_poll)
  from f have tk1: "ticks (future w) \<le> Suc (ticks rest)" by (simp add: ticks_Cons)
  note p1 = millis_pending [OF m]
  from m f have rx: "rxbuf w1 = rxbuf w @ bs"
    by (auto simp: millis_def Let_def)
  let ?s = "clock w + of_nat d"
  from c1 have e0: "unat (clock w1 - ?s) = 0" by simp
  then have q1: "unat (clock w1 - ?s) < 1000" by simp
  from assms(1) tk1 f1 e0 have q2: "1000 - unat (clock w1 - ?s) \<le> ticks (future w1)" by simp
  from steps f f1 have q3: "\<forall>e\<in>set (future w1). fst e + 1000 < 2 ^ 32" by simp
  from timedRead_loop_returns [OF q1 q2 q3]
  obtain c w' where res: "timedRead_loop ?s w1 = Some (c, w')"
    "ticks (future w1) \<le> ticks (future w') + (1000 - unat (clock w1 - ?s))"
    "length (pending w') \<le> length (pending w1)"
    "0 \<le> c \<longrightarrow> length (pending w1) = Suc (length (pending w'))"
    "rxbuf w1 \<noteq> [] \<longrightarrow> 0 \<le> c"
    "set (future w') \<subseteq> set (future w1)"
    by blast
  from m res(1) have "timedRead w = Some (c, w')" by (simp add: timedRead_def)
  moreover from res(2) tk1 f1 e0 have "ticks (future w) \<le> ticks (future w') + 1001" by simp
  moreover from res(6) f f1 have "set (future w') \<subseteq> set (future w)" by auto
  ultimately show ?thesis using res(3,4,5) p1 rx by auto
qed

lemma readStringUntil_loop_returns:
  "1001 * Suc (length (pending w)) \<le> ticks (future w) \<Longrightarrow>
   \<forall>e\<in>set (future w). fst e + 1000 < 2 ^ 32 \<Longrightarrow>
   \<exists>line w'. readStringUntil_loop terminator ret c w = Some (line, w')
     \<and> length (pending w') \<le> length (pending w)
     \<and> ticks (future w) + 1001 * length (pending w')
         \<le> ticks (future w') + 1001 * Suc (length (pending w))
     \<and> set (future w') \<subseteq> set (future w)"
proof (induction terminator ret c w rule: readStringUntil_loop.induct)
  case (1 terminator ret c w)
  note fuel = "1.prems"(1) and steps = "1.prems"(2)
  show ?case
  proof (cases "0 \<le> c \<and> c \<noteq> of_char terminator")
    case False
    then have "readStringUntil_loop terminator ret c w = Some (ret, w)"
      by (auto simp: readStringUntil_loop.simps [of terminator ret c w])
    then show ?thesis by simp
  next
    case go: True
    from fuel have "1001 \<le> ticks (future w)" by simp
    from timedRead_returns [OF this steps]
    obtain c' w1 where t: "timedRead w = Some (c', w1)"
      and tk: "ticks (future w) \<le> ticks (future w1) + 1001"
      and pl: "length (pending w1) \<le> length (pending w)"
      and pc: "0 \<le> c' \<longrightarrow> length (pending w) = Suc (length (pending w1))"
      and fs: "set (future w1) \<subseteq> set (future w)"
      by blast
    from go t have unf: "readStringUntil_loop terminator ret c w
        = readStringUntil_loop terminator (ret @ [char_of c]) c' w1"
      by (simp add: readStringUntil_loop.simps [of terminator ret c w])
    show ?thesis
    proof (cases "0 \<le> c' \<and> c' \<noteq> of_char terminator")
      case False
      then have "readStringUntil_loop terminator (ret @ [char_of c]) c' w1
                 = Some (ret @ [char_of c], w1)"
        by (auto simp: readStringUntil_loop.simps [of terminator "ret @ [char_of c]" c' w1])
      with unf tk pl fs show ?thesis by simp
    next
      case True
      with pc have pe: "length (pending w) = Suc (length (pending w1))" by simp
      from fuel tk pe have q1: "1001 * Suc (length (pending w1)) \<le> ticks (future w1)" by simp
      from steps fs have q2: "\<forall>e\<in>set (future w1). fst e + 1000 < 2 ^ 32" by auto
      from "1.IH" [OF go t refl q1 q2]
      obtain line w' where res:
        "readStringUntil_loop terminator (ret @ [char_of c]) c' w1 = Some (line, w')"
        "length (pending w') \<le> length (pending w1)"
        "ticks (future w1) + 1001 * length (pending w')
           \<le> ticks (future w') + 1001 * Suc (length (pending w1))"
        "set (future w') \<subseteq> set (future w1)"
        by blast
      from res(1) unf have "readStringUntil_loop terminator ret c w = Some (line, w')" by simp
      moreover from res(2) pl have "length (pending w') \<le> length (pending w)" by simp
      moreover from res(3) tk pe
      have "ticks (future w) + 1001 * length (pending w')
              \<le> ticks (future w') + 1001 * Suc (length (pending w))" by simp
      moreover from res(4) fs have "set (future w') \<subseteq> set (future w)" by auto
      ultimately show ?thesis by blast
    qed
  qed
qed

lemma readStringUntil_returns:
  assumes fuel: "1001 * Suc (length (pending w)) \<le> ticks (future w)"
    and steps: "\<forall>e\<in>set (future w). fst e + 1000 < 2 ^ 32"
  shows "\<exists>line w'. readStringUntil terminator w = Some (line, w')
     \<and> length (pending w') \<le> length (pending w)
     \<and> (rxbuf w \<noteq> [] \<longrightarrow> length (pending w') < length (pending w))
     \<and> ticks (future w) + 1001 * length (pending w')
         \<le> ticks (future w') + 1001 * Suc (length (pending w))
     \<and> set (future w') \<subseteq> set (future w)"
proof -
  from fuel have "1001 \<le> ticks (future w)" by simp
  from timedRead_returns [OF this steps]
  obtain c w1 where t: "timedRead w = Some (c, w1)"
    and tk: "ticks (future w) \<le> ticks (future w1) + 1001"
    and pl: "length (pending w1) \<le> length (pending w)"
    and pc: "0 \<le> c \<longrightarrow> length (pending w) = Suc (length (pending w1))"
    and rx: "rxbuf w \<noteq> [] \<longrightarrow> 0 \<le> c"
    and fs: "set (future w1) \<subseteq> set (future w)"
    by blast
  from t have unf: "readStringUntil terminator w = readStringUntil_loop terminator [] c w1"
    by (simp add: readStringUntil_def)
  show ?thesis
  proof (cases "0 \<le> c")
    case False
    then have "readStringUntil_loop terminator [] c w1 = Some ([], w1)"
      by (simp add: readStringUntil_loop.simps [of terminator "[]" c w1])
    with unf tk pl fs rx False show ?thesis by simp
  next
    case True
    with pc have pe: "length (pending w) = Suc (length (pending w1))" by simp
    from fuel tk pe have q1: "1001 * Suc (length (pending w1)) \<le> ticks (future w1)" by simp
    from steps fs have q2: "\<forall>e\<in>set (future w1). fst e + 1000 < 2 ^ 32" by auto
    from readStringUntil_loop_returns [OF q1 q2, of terminator "[]" c]
    obtain line w' where res:
      "readStringUntil_loop terminator [] c w1 = Some (line, w')"
      "length (pending w') \<le> length (pending w1)"
      "ticks (future w1) + 1001 * length (pending w')
         \<le> ticks (future w') + 1001 * Suc (length (pending w1))"
      "set (future w') \<subseteq> set (future w1)"
      by blast
    from res(1) unf have "readStringUntil terminator w = Some (line, w')" by simp
    moreover from res(2) pe have "length (pending w') < length (pending w)" by simp
    moreover from res(3) tk pe
    have "ticks (future w) + 1001 * length (pending w')
            \<le> ticks (future w') + 1001 * Suc (length (pending w))" by simp
    moreover from res(4) fs have "set (future w') \<subseteq> set (future w)" by auto
    ultimately show ?thesis by auto
  qed
qed

lemma line_wait_poll:
  assumes fuel: "line_wait_fuel window start w \<le> ticks (future w)"
    and steps: "\<forall>e\<in>set (future w). fst e + window < 2 ^ 32"
    and win: "window = unat wd"
  obtains now w1 where "millis w = Some (now, w1)"
    "set (future w1) \<subseteq> set (future w)"
    "now - start < wd \<Longrightarrow> line_wait_fuel window start w1 \<le> ticks (future w1)"
proof -
  from fuel have "0 < ticks (future w)" by (simp add: line_wait_fuel_def split: if_splits)
  then obtain d bs rest w1 where f: "future w = (d, bs) # rest"
    and m: "millis w = Some (clock w + of_nat d, w1)"
    and c1: "clock w1 = clock w + of_nat d" and f1: "future w1 = rest"
    and tk: "d + ticks rest \<ge> ticks (future w)"
    by (rule millis_poll)
  from f have tk1: "ticks (future w) \<le> Suc (ticks rest)" by (simp add: ticks_Cons)
  note p1 = millis_pending [OF m]
  let ?now = "clock w + of_nat d"
  from steps f have d: "d + window < 2 ^ 32" by simp
  have a: "line_wait_fuel window start w1 \<le> ticks (future w1)"
    if inwin: "?now - start < wd"
  proof -
    from inwin win(1) have lt: "unat (?now - start) < window" by (simp add: word_less_nat_alt)
    show "line_wait_fuel window start w1 \<le> ticks (future w1)"
    proof (cases "unat (clock w - start) < window")
      case True
      with d have el: "unat (?now - start) = unat (clock w - start) + d"
        by (intro unat_elapsed) simp
      from fuel True have "Suc window - unat (clock w - start) + 83000 * length (pending w)
                            \<le> ticks (future w)"
        by (simp add: line_wait_fuel_def)
      with el lt tk f1 c1 p1 show ?thesis by (simp add: line_wait_fuel_def)
    next
      case False
      with fuel have "window + 2 + 83000 * length (pending w) \<le> ticks (future w)"
        by (simp add: line_wait_fuel_def)
      with lt tk1 f1 c1 p1 show ?thesis by (simp add: line_wait_fuel_def)
    qed
  qed
  from f f1 have "set (future w1) \<subseteq> set (future w)" by auto
  with m a show ?thesis by (intro that [of ?now w1]) auto
qed

lemma line_wait_read:
  assumes fuel: "line_wait_fuel window start w \<le> ticks (future w)"
    and steps: "\<forall>e\<in>set (future w). fst e + window < 2 ^ 32"
    and win: "1000 \<le> window" "window \<le> 80000"
    and rx: "0 < uart_available w"
  obtains line w' where "readStringUntil terminator w = Some (line, w')"
    "set (future w') \<subseteq> set (future w)"
    "line_wait_fuel window start w' \<le> ticks (future w')"
proof -
  from rx have ne: "rxbuf w \<noteq> []" by (simp add: uart_available_def)
  then have p: "0 < length (pending w)" by (simp add: pending_def)
  from fuel have f0: "83000 * length (pending w) \<le> ticks (future w)"
    by (simp add: line_wait_fuel_def)
  with p have "1001 + 1001 * length (pending w) \<le> ticks (future w)" by linarith
  then have q1: "1001 * Suc (length (pending w)) \<le> ticks (future w)" by simp
  from steps win(1) have q2: "\<forall>e\<in>set (future w). fst e + 1000 < 2 ^ 32" by auto
  from readStringUntil_returns [OF q1 q2, of terminator] ne
  obtain line w' where r: "readStringUntil terminator w = Some (line, w')"
    and pl: "length (pending w') < length (pending w)"
    and tk: "ticks (future w) + 1001 * length (pending w')
               \<le> ticks (future w') + 1001 * Suc (length (pending w))"
    and fs: "set (future w') \<subseteq> set (future w)"
    by blast
  have "line_wait_fuel window start w' \<le> 80002 + 83000 * length (pending w')"
  proof (cases "unat (clock w' - start) < window")
    case True
    have "Suc window - unat (clock w' - start) \<le> Suc window" by (rule diff_le_self)
    with True win(2) show ?thesis by (simp add: line_wait_fuel_def)
  next
    case False
    with win(2) show ?thesis by (simp add: line_wait_fuel_def)
  qed
  also from pl tk f0 have "\<dots> \<le> ticks (future w')" unfolding mult_Suc_right by linarith
  finally show ?thesis using r fs by (intro that [of line w']) auto
qed

lemma size_wait_loop_returns:
  "line_wait_fuel 80000 startWait w \<le> ticks (future w) \<Longrightarrow>
   \<forall>e\<in>set (future w). fst e + 80000 < 2 ^ 32 \<Longrightarrow>
   size_wait_loop startWait w \<noteq> None"
proof (induction startWait w rule: size_wait_loop.induct)
  case (1 startWait w)
  note fuel = "1.prems"(1) and steps = "1.prems"(2)
  have win: "(80000::nat) = unat (80000 :: u32)" by simp
  from line_wait_poll [OF fuel steps win]
  obtain now w1 where m: "millis w = Some (now, w1)"
    and fs1: "set (future w1) \<subseteq> set (future w)"
    and f1: "now - startWait < 80000 \<Longrightarrow> line_wait_fuel 80000 startWait w1 \<le> ticks (future w1)"
    by blast
  from steps fs1 have s1: "\<forall>e\<in>set (future w1). fst e + 80000 < 2 ^ 32" by auto
  show ?case
  proof (cases "now - startWait < 80000")
    case False
    with m show ?thesis by (simp add: size_wait_loop.simps [of startWait w])
  next
    case inwin: True
    note fu1 = f1 [OF inwin]
    show ?thesis
    proof (cases "0 < uart_available w1")
      case False
      from "1.IH"(2) [OF m refl inwin False fu1 s1] m inwin False
      show ?thesis by (simp add: size_wait_loop.simps [of startWait w])
    next
      case av: True
      from line_wait_read [OF fu1 s1 _ _ av, of "CHR 0x0A"]
      obtain line w2 where r: "readStringUntil (CHR 0x0A) w1 = Some (line, w2)"
        and fs2: "set (future w2) \<subseteq> set (future w1)"
        and fu2: "line_wait_fuel 80000 startWait w2 \<le> ticks (future w2)"
        by auto
      from s1 fs2 have s2: "\<forall>e\<in>set (future w2). fst e + 80000 < 2 ^ 32" by auto
      show ?thesis
      proof (cases "startsWith line ''+QHTTPGET: 0,200'' \<or> startsWith line ''+QHTTPGET: ''")
        case True
        with m inwin av r show ?thesis
          by (auto simp: size_wait_loop.simps [of startWait w] Let_def)
      next
        case False
        then have n1: "\<not> startsWith line ''+QHTTPGET: 0,200''"
          and n2: "\<not> (startsWith line ''+QHTTPGET: ''
                       \<and> \<not> startsWith line ''+QHTTPGET: 0,200'')" by auto
        from "1.IH"(1) [OF m refl inwin av r refl n1 n2 fu2 s2]
        have "size_wait_loop startWait w2 \<noteq> None" .
        with m inwin av r False show ?thesis
          by (simp add: size_wait_loop.simps [of startWait w])
      qed
    qed
  qed
qed

lemma connect_wait_loop_returns:
  "line_wait_fuel 10000 connectTime w \<le> ticks (future w) \<Longrightarrow>
   \<forall>e\<in>set (future w). fst e + 10000 < 2 ^ 32 \<Longrightarrow>
   connect_wait_loop connectTime w \<noteq> None"
proof (induction connectTime w rule: connect_wait_loop.induct)
  case (1 connectTime w)
  note fuel = "1.prems"(1) and steps = "1.prems"(2)
  have win: "(10000::nat) = unat (10000 :: u32)" by simp
  from line_wait_poll [OF fuel steps win]
  obtain now w1 where m: "millis w = Some (now, w1)"
    and fs1: "set (future w1) \<subseteq> set (future w)"
    and f1: "now - connectTime < 10000 \<Longrightarrow> line_wait_fuel 10000 connectTime w1 \<le> ticks (future w1)"
    by blast
  from steps fs1 have s1: "\<forall>e\<in>set (future w1). fst e + 10000 < 2 ^ 32" by auto
  show ?case
  proof (cases "now - connectTime < 10000")
    case False
    with m show ?thesis by (simp add: connect_wait_loop.simps [of connectTime w])
  next
    case inwin: True
    note fu1 = f1 [OF inwin]
    show ?thesis
    proof (cases "0 < uart_available w1")
      case False
      from "1.IH"(2) [OF m refl inwin False fu1 s1] m inwin False
      show ?thesis by (simp add: connect_wait_loop.simps [of connectTime w])
    next
      case av: True
      from line_wait_read [OF fu1 s1 _ _ av, of "CHR 0x0A"]
      obtain line w2 where r: "readStringUntil (CHR 0x0A) w1 = Some (line, w2)"
        and fs2: "set (future w2) \<subseteq> set (future w1)"
        and fu2: "line_wait_fuel 10000 connectTime w2 \<le> ticks (future w2)"
        by auto
      from s1 fs2 have s2: "\<forall>e\<in>set (future w2). fst e + 10000 < 2 ^ 32" by auto
      show ?thesis
      proof (cases "indexOf line ''CONNECT'' \<noteq> - 1")
        case True
        with m inwin av r show ?thesis
          by (simp add: connect_wait_loop.simps [of connectTime w])
      next
        case False
        from "1.IH"(1) [OF m refl inwin av r refl False fu2 s2]
        have "connect_wait_loop connectTime w2 \<noteq> None" .
        with m inwin av r False show ?thesis
          by (simp add: connect_wait_loop.simps [of connectTime w])
      qed
    qed
  qed
qed

lemma line_wait_fuel_le: "line_wait_fuel window start w \<le> window + 2 + 83000 * length (pending w)"
proof (cases "unat (clock w - start) < window")
  case True
  have "Suc window - unat (clock w - start) \<le> Suc window" by (rule diff_le_self)
  with True show ?thesis by (simp add: line_wait_fuel_def)
next
  case False
  then show ?thesis by (simp add: line_wait_fuel_def)
qed


section \<open>The modem lifecycle: proofs\<close>

lemma powerCycleModem_console: "console (powerCycleModem w) = console w @ [MsgPowerCycling]"
  by (simp add: powerCycleModem_def serial_println_def pinModeOutput_def digitalWrite_def delay_def)

lemma powerCycleModem_hw: "hw (powerCycleModem w) = hw w @ power_cycle_ops"
  by (simp add: powerCycleModem_def serial_println_def pinModeOutput_def digitalWrite_def delay_def
      power_cycle_ops_def)

lemma powerCycleModem_tx: "tx (powerCycleModem w) = tx w"
  by (simp add: powerCycleModem_def serial_println_def pinModeOutput_def digitalWrite_def delay_def)

lemma connectNetwork_cases:
  assumes "connectNetwork w = Some (ok, w')"
  obtains
    (sim_fail) r1 w1 where
      "sendAT ''ATE0'' ''OK'' 1000 w = Some (r1, w1)"
      "sendAT ''AT+CPIN?'' ''READY'' 2000 w1 = Some (False, w')" "\<not> ok"
  | (apn_fail) r1 w1 w2 r3 w3 where
      "sendAT ''ATE0'' ''OK'' 1000 w = Some (r1, w1)"
      "sendAT ''AT+CPIN?'' ''READY'' 2000 w1 = Some (True, w2)"
      "sendAT ''AT+QIDEACT=1'' ''OK'' 5000 w2 = Some (r3, w3)"
      \<open>sendAT ''AT+QICSGP=1,1,"airtelgprs.com","","",1'' ''OK'' 2000 w3 = Some (False, w')\<close> "\<not> ok"
  | (through) r1 w1 w2 r3 w3 w4 where
      "sendAT ''ATE0'' ''OK'' 1000 w = Some (r1, w1)"
      "sendAT ''AT+CPIN?'' ''READY'' 2000 w1 = Some (True, w2)"
      "sendAT ''AT+QIDEACT=1'' ''OK'' 5000 w2 = Some (r3, w3)"
      \<open>sendAT ''AT+QICSGP=1,1,"airtelgprs.com","","",1'' ''OK'' 2000 w3 = Some (True, w4)\<close>
      "sendAT ''AT+QIACT=1'' ''OK'' 10000 w4 = Some (ok, w')"
  using assms unfolding connectNetwork_def
  by (auto split: option.splits if_splits)

lemma connectNetwork_console:
  assumes "connectNetwork w = Some (ok, w')" shows "console w' = console w"
  using assms by (cases rule: connectNetwork_cases) (auto dest!: sendAT_console)

lemma connectNetwork_hw:
  assumes "connectNetwork w = Some (ok, w')" shows "hw w' = hw w"
  using assms by (cases rule: connectNetwork_cases) (auto dest!: sendAT_hw)

lemma attempts_console:
  "attempts w outs w' \<Longrightarrow>
     console w' = console w @ concat (map (\<lambda>r. if r then [] else [MsgRetrying, MsgPowerCycling]) outs)"
proof (induction outs arbitrary: w)
  case Nil
  then show ?case by simp
next
  case (Cons r rs)
  from Cons.prems obtain w1 where c: "connectNetwork w = Some (r, w1)"
    and rest: "if r then rs = [] \<and> w' = w1
               else attempts (powerCycleModem (serial_println MsgRetrying w1)) rs w'"
    by auto
  show ?case
  proof (cases r)
    case True
    with rest connectNetwork_console [OF c] show ?thesis by simp
  next
    case False
    with rest have "attempts (powerCycleModem (serial_println MsgRetrying w1)) rs w'" by simp
    from Cons.IH [OF this] False connectNetwork_console [OF c] show ?thesis
      by (simp add: powerCycleModem_console serial_println_def)
  qed
qed

lemma attempts_hw:
  "attempts w outs w' \<Longrightarrow>
     hw w' = hw w @ concat (map (\<lambda>r. if r then [] else power_cycle_ops) outs)"
proof (induction outs arbitrary: w)
  case Nil
  then show ?case by simp
next
  case (Cons r rs)
  from Cons.prems obtain w1 where c: "connectNetwork w = Some (r, w1)"
    and rest: "if r then rs = [] \<and> w' = w1
               else attempts (powerCycleModem (serial_println MsgRetrying w1)) rs w'"
    by auto
  show ?case
  proof (cases r)
    case True
    with rest connectNetwork_hw [OF c] show ?thesis by simp
  next
    case False
    with rest have "attempts (powerCycleModem (serial_println MsgRetrying w1)) rs w'" by simp
    from Cons.IH [OF this] False connectNetwork_hw [OF c] show ?thesis
      by (simp add: powerCycleModem_hw serial_println_def)
  qed
qed

lemma gsm_setup_loop_attempts:
  "gsm_setup_loop i w = Some (ok, w') \<longleftrightarrow>
     (\<exists>k. attempts w (replicate k False @ (if ok then [True] else [])) w' \<and>
          (if ok then k < 3 - i else k = 3 - i))"
proof (induction i w rule: gsm_setup_loop.induct)
  case (1 i w)
  show ?case
  proof (cases "i < 3")
    case False
    then show ?thesis by (auto simp: gsm_setup_loop.simps [of i w])
  next
    case True
    show ?thesis
    proof (cases "connectNetwork w")
      case None
      have "\<not> attempts w (replicate k False @ (if ok then [True] else [])) w'" if "if ok then k < 3 - i else k = 3 - i" for k
        using that None True by (cases k) (auto split: if_splits)
      with None True show ?thesis by (auto simp: gsm_setup_loop.simps [of i w])
    next
      case (Some p)
      obtain r w1 where p: "p = (r, w1)" by (cases p)
      show ?thesis
      proof (cases r)
        case rt: True
        have "(\<exists>k. attempts w (replicate k False @ (if ok then [True] else [])) w' \<and>
                (if ok then k < 3 - i else k = 3 - i)) \<longleftrightarrow> (ok \<and> w' = w1)"
        proof
          assume "\<exists>k. attempts w (replicate k False @ (if ok then [True] else [])) w' \<and>
                (if ok then k < 3 - i else k = 3 - i)"
          then obtain k where a: "attempts w (replicate k False @ (if ok then [True] else [])) w'"
            and b: "if ok then k < 3 - i else k = 3 - i" by blast
          show "ok \<and> w' = w1"
          proof (cases k)
            case 0
            with a b Some p rt True show ?thesis by (auto split: if_splits)
          next
            case (Suc k')
            with a Some p rt show ?thesis by auto
          qed
        next
          assume "ok \<and> w' = w1"
          with Some p rt True have "attempts w (replicate 0 False @ (if ok then [True] else [])) w' \<and>
                (if ok then 0 < 3 - i else 0 = 3 - i)" by simp
          then show "\<exists>k. attempts w (replicate k False @ (if ok then [True] else [])) w' \<and>
                (if ok then k < 3 - i else k = 3 - i)" by blast
        qed
        with Some p rt True show ?thesis by (auto simp: gsm_setup_loop.simps [of i w])
      next
        case rf: False
        let ?w2 = "powerCycleModem (serial_println MsgRetrying w1)"
        from Some p rf True have unfold: "gsm_setup_loop i w = gsm_setup_loop (i + 1) ?w2"
          by (simp add: gsm_setup_loop.simps [of i w])
        from Some p rf have IH: "gsm_setup_loop (i + 1) ?w2 = Some (ok, w') \<longleftrightarrow>
            (\<exists>k. attempts ?w2 (replicate k False @ (if ok then [True] else [])) w' \<and>
              (if ok then k < 3 - (i + 1) else k = 3 - (i + 1)))"
          using "1.IH" [OF True Some p [symmetric]] by simp
        have "(\<exists>k. attempts w (replicate k False @ (if ok then [True] else [])) w' \<and>
                (if ok then k < 3 - i else k = 3 - i)) \<longleftrightarrow>
              (\<exists>k. attempts ?w2 (replicate k False @ (if ok then [True] else [])) w' \<and>
                (if ok then k < 3 - (i + 1) else k = 3 - (i + 1)))" (is "?L \<longleftrightarrow> ?R")
        proof
          assume ?L
          then obtain k where a: "attempts w (replicate k False @ (if ok then [True] else [])) w'"
            and b: "if ok then k < 3 - i else k = 3 - i" by blast
          show ?R
          proof (cases k)
            case 0
            with a b Some p rf True show ?thesis by (auto split: if_splits)
          next
            case (Suc k')
            with a Some p rf have "attempts ?w2 (replicate k' False @ (if ok then [True] else [])) w'"
              by auto
            moreover from b Suc have "if ok then k' < 3 - (i + 1) else k' = 3 - (i + 1)"
              by (auto split: if_splits)
            ultimately show ?thesis by blast
          qed
        next
          assume ?R
          then obtain k where a: "attempts ?w2 (replicate k False @ (if ok then [True] else [])) w'"
            and b: "if ok then k < 3 - (i + 1) else k = 3 - (i + 1)" by blast
          from a Some p rf have "attempts w (replicate (Suc k) False @ (if ok then [True] else [])) w'"
            by simp
          moreover from b True have "if ok then Suc k < 3 - i else Suc k = 3 - i"
            by (auto split: if_splits)
          ultimately show ?L by blast
        qed
        with unfold IH show ?thesis by simp
      qed
    qed
  qed
qed

text \<open>
  Claim C5. \<open>gsm_setup\<close> power-cycles the modem once and then tries \<open>connectNetwork\<close>
  at most three times, with a power cycle after each failed try. Whenever it returns,
  the tries made were \<open>k\<close> failures followed, when the result is success, by one success:
  \<open>k < 3\<close> on success and \<open>k = 3\<close> on failure. The console and the pins show \<open>k + 1\<close>
  power cycles. So two failures and a success are three tries and three power cycles,
  and a modem that never attaches is tried three times, not more.
\<close>

theorem gsm_setup_retry_policy:
  assumes "gsm_setup w = Some (ok, w')"
  shows "\<exists>k. attempts (powerCycleModem (serial_println MsgConnecting (uart_begin (CHUNK_SIZE + 512) w)))
               (replicate k False @ (if ok then [True] else [])) w'
           \<and> (if ok then k < 3 else k = 3)
           \<and> console w' = console w @ [MsgConnecting, MsgPowerCycling]
                 @ concat (replicate k [MsgRetrying, MsgPowerCycling])
           \<and> hw w' = hw w @ concat (replicate (Suc k) power_cycle_ops)"
proof -
  let ?w0 = "powerCycleModem (serial_println MsgConnecting (uart_begin (CHUNK_SIZE + 512) w))"
  from assms have "gsm_setup_loop 0 ?w0 = Some (ok, w')"
    by (simp add: gsm_setup_def Let_def)
  then obtain k where a: "attempts ?w0 (replicate k False @ (if ok then [True] else [])) w'"
    and b: "if ok then k < 3 else k = 3"
    unfolding gsm_setup_loop_attempts by (auto split: if_splits)
  have c0: "console ?w0 = console w @ [MsgConnecting, MsgPowerCycling]"
    by (simp add: powerCycleModem_console serial_println_def uart_begin_def)
  have h0: "hw ?w0 = hw w @ power_cycle_ops"
    by (simp add: powerCycleModem_hw serial_println_def uart_begin_def)
  have m1: "concat (map (\<lambda>r. if r then [] else [MsgRetrying, MsgPowerCycling])
              (replicate k False @ (if ok then [True] else [])))
            = concat (replicate k [MsgRetrying, MsgPowerCycling])"
    by (simp add: map_replicate_const)
  have m2: "concat (map (\<lambda>r. if r then [] else power_cycle_ops)
              (replicate k False @ (if ok then [True] else [])))
            = concat (replicate k power_cycle_ops)"
    by (simp add: map_replicate_const)
  have sw: "power_cycle_ops @ concat (replicate k power_cycle_ops)
            = concat (replicate k power_cycle_ops) @ power_cycle_ops"
    by (induction k) simp_all
  from attempts_console [OF a] c0 m1
  have c: "console w' = console w @ [MsgConnecting, MsgPowerCycling]
                 @ concat (replicate k [MsgRetrying, MsgPowerCycling])" by simp
  from attempts_hw [OF a] h0 m2 sw
  have h: "hw w' = hw w @ concat (replicate (Suc k) power_cycle_ops)" by simp
  from a b c h show ?thesis by blast
qed

theorem gsm_setup_retry_policy_witness:
  "map_option (\<lambda>(ok, w'). (ok, console w'))
     (gsm_setup (fresh_board (attach_unanswered @ attach_unanswered @ attach_answered)))
   = Some (True, [MsgConnecting, MsgPowerCycling, MsgRetrying, MsgPowerCycling,
                  MsgRetrying, MsgPowerCycling])
   \<and> (\<exists>k < 3. hw (snd (the (gsm_setup
           (fresh_board (attach_unanswered @ attach_unanswered @ attach_answered)))))
         = concat (replicate (Suc k) power_cycle_ops))"
proof -
  let ?w = "fresh_board (attach_unanswered @ attach_unanswered @ attach_answered)"
  have e: "map_option (\<lambda>(ok, w'). (ok, console w')) (gsm_setup ?w)
           = Some (True, [MsgConnecting, MsgPowerCycling, MsgRetrying, MsgPowerCycling,
                          MsgRetrying, MsgPowerCycling])"
    by (simp add: run_simps)
  then obtain w' where r: "gsm_setup ?w = Some (True, w')" by auto
  from gsm_setup_retry_policy [OF r] obtain k where
    "k < 3" "hw w' = hw ?w @ concat (replicate (Suc k) power_cycle_ops)"
    by auto
  with r have "\<exists>k < 3. hw (snd (the (gsm_setup ?w))) = concat (replicate (Suc k) power_cycle_ops)"
    by (auto simp: fresh_board_def)
  with e show ?thesis by blast
qed

text \<open>
  Claim C10. When \<open>gsm_setup\<close> returns failure, all three tries of \<open>connectNetwork\<close> have
  failed and the modem has been power-cycled four times: once at the start and once
  after each failed try, the last one included, after which nothing more is sent.
\<close>

theorem gsm_setup_failure_four_power_cycles:
  assumes "gsm_setup w = Some (False, w')"
  shows "attempts (powerCycleModem (serial_println MsgConnecting (uart_begin (CHUNK_SIZE + 512) w)))
           [False, False, False] w'
         \<and> console w' = console w @ [MsgConnecting, MsgPowerCycling, MsgRetrying, MsgPowerCycling,
               MsgRetrying, MsgPowerCycling, MsgRetrying, MsgPowerCycling]
         \<and> hw w' = hw w @ power_cycle_ops @ power_cycle_ops @ power_cycle_ops @ power_cycle_ops
         \<and> (\<exists>w3. w' = powerCycleModem (serial_println MsgRetrying w3) \<and> tx w' = tx w3)"
proof -
  let ?w0 = "powerCycleModem (serial_println MsgConnecting (uart_begin (CHUNK_SIZE + 512) w))"
  from assms have "gsm_setup_loop 0 ?w0 = Some (False, w')"
    by (simp add: gsm_setup_def Let_def)
  then have "attempts ?w0 (replicate 3 False) w'"
    unfolding gsm_setup_loop_attempts by auto
  then have a: "attempts ?w0 [False, False, False] w'"
    by (simp add: numeral_3_eq_3)
  have c0: "console ?w0 = console w @ [MsgConnecting, MsgPowerCycling]"
    by (simp add: powerCycleModem_console serial_println_def uart_begin_def)
  have h0: "hw ?w0 = hw w @ power_cycle_ops"
    by (simp add: powerCycleModem_hw serial_println_def uart_begin_def)
  from attempts_console [OF a] c0
  have c: "console w' = console w @ [MsgConnecting, MsgPowerCycling, MsgRetrying, MsgPowerCycling,
               MsgRetrying, MsgPowerCycling, MsgRetrying, MsgPowerCycling]" by simp
  from attempts_hw [OF a] h0
  have h: "hw w' = hw w @ power_cycle_ops @ power_cycle_ops @ power_cycle_ops @ power_cycle_ops"
    by simp
  from a obtain w3 where "w' = powerCycleModem (serial_println MsgRetrying w3)"
    by auto
  then have "\<exists>w3. w' = powerCycleModem (serial_println MsgRetrying w3) \<and> tx w' = tx w3"
    by (auto simp: powerCycleModem_tx serial_println_def)
  with a c h show ?thesis by blast
qed

theorem gsm_setup_failure_four_power_cycles_witness:
  "map_option (\<lambda>(ok, w'). (ok, console w'))
     (gsm_setup (fresh_board (attach_unanswered @ attach_unanswered @ attach_unanswered)))
   = Some (False, [MsgConnecting, MsgPowerCycling, MsgRetrying, MsgPowerCycling,
                   MsgRetrying, MsgPowerCycling, MsgRetrying, MsgPowerCycling])
   \<and> hw (snd (the (gsm_setup (fresh_board (attach_unanswered @ attach_unanswered @ attach_unanswered)))))
     = power_cycle_ops @ power_cycle_ops @ power_cycle_ops @ power_cycle_ops"
proof -
  let ?w = "fresh_board (attach_unanswered @ attach_unanswered @ attach_unanswered)"
  have e: "map_option (\<lambda>(ok, w'). (ok, console w')) (gsm_setup ?w)
           = Some (False, [MsgConnecting, MsgPowerCycling, MsgRetrying, MsgPowerCycling,
                   MsgRetrying, MsgPowerCycling, MsgRetrying, MsgPowerCycling])"
    by (simp add: run_simps)
  then obtain w' where r: "gsm_setup ?w = Some (False, w')" by auto
  from gsm_setup_failure_four_power_cycles [OF r]
  have "hw w' = hw ?w @ power_cycle_ops @ power_cycle_ops @ power_cycle_ops @ power_cycle_ops"
    by blast
  with r have "hw (snd (the (gsm_setup ?w)))
     = power_cycle_ops @ power_cycle_ops @ power_cycle_ops @ power_cycle_ops"
    by (simp add: fresh_board_def)
  with e show ?thesis by blast
qed

text \<open>
  Claim C7, as the code has it. \<open>connectNetwork\<close> sends its five commands in the order
  \<^verbatim>\<open>ATE0\<close>, \<^verbatim>\<open>AT+CPIN?\<close>, \<^verbatim>\<open>AT+QIDEACT=1\<close>, \<^verbatim>\<open>AT+QICSGP\<close>, \<^verbatim>\<open>AT+QIACT=1\<close>. It stops
  with failure at the first of \<^verbatim>\<open>AT+CPIN?\<close>, \<^verbatim>\<open>AT+QICSGP\<close> and \<^verbatim>\<open>AT+QIACT=1\<close> that fails,
  sending nothing after it; the results of \<^verbatim>\<open>ATE0\<close> and of \<^verbatim>\<open>AT+QIDEACT=1\<close> are not
  looked at. It succeeds exactly when those three succeed.
\<close>

theorem connectNetwork_steps:
  assumes "connectNetwork w = Some (ok, w')"
  shows \<open>(\<exists>r1 w1. sendAT ''ATE0'' ''OK'' 1000 w = Some (r1, w1)
            \<and> sendAT ''AT+CPIN?'' ''READY'' 2000 w1 = Some (False, w')
            \<and> \<not> ok
            \<and> tx w' = tx w @ [''ATE0'' @ CRLF, ''AT+CPIN?'' @ CRLF])
         \<or> (\<exists>r1 w1 w2 r3 w3. sendAT ''ATE0'' ''OK'' 1000 w = Some (r1, w1)
            \<and> sendAT ''AT+CPIN?'' ''READY'' 2000 w1 = Some (True, w2)
            \<and> sendAT ''AT+QIDEACT=1'' ''OK'' 5000 w2 = Some (r3, w3)
            \<and> sendAT ''AT+QICSGP=1,1,"airtelgprs.com","","",1'' ''OK'' 2000 w3 = Some (False, w')
            \<and> \<not> ok
            \<and> tx w' = tx w @ [''ATE0'' @ CRLF, ''AT+CPIN?'' @ CRLF, ''AT+QIDEACT=1'' @ CRLF,
                  ''AT+QICSGP=1,1,"airtelgprs.com","","",1'' @ CRLF])
         \<or> (\<exists>r1 w1 w2 r3 w3 w4. sendAT ''ATE0'' ''OK'' 1000 w = Some (r1, w1)
            \<and> sendAT ''AT+CPIN?'' ''READY'' 2000 w1 = Some (True, w2)
            \<and> sendAT ''AT+QIDEACT=1'' ''OK'' 5000 w2 = Some (r3, w3)
            \<and> sendAT ''AT+QICSGP=1,1,"airtelgprs.com","","",1'' ''OK'' 2000 w3 = Some (True, w4)
            \<and> sendAT ''AT+QIACT=1'' ''OK'' 10000 w4 = Some (ok, w')
            \<and> tx w' = tx w @ [''ATE0'' @ CRLF, ''AT+CPIN?'' @ CRLF, ''AT+QIDEACT=1'' @ CRLF,
                  ''AT+QICSGP=1,1,"airtelgprs.com","","",1'' @ CRLF, ''AT+QIACT=1'' @ CRLF])\<close>
  using assms
proof (cases rule: connectNetwork_cases)
  case (sim_fail r1 w1)
  from sendAT_tx [OF sim_fail(1)] sendAT_tx [OF sim_fail(2)]
  have "tx w' = tx w @ [''ATE0'' @ CRLF, ''AT+CPIN?'' @ CRLF]" by simp
  with sim_fail show ?thesis by blast
next
  case (apn_fail r1 w1 w2 r3 w3)
  from sendAT_tx [OF apn_fail(1)] sendAT_tx [OF apn_fail(2)] sendAT_tx [OF apn_fail(3)]
    sendAT_tx [OF apn_fail(4)]
  have \<open>tx w' = tx w @ [''ATE0'' @ CRLF, ''AT+CPIN?'' @ CRLF, ''AT+QIDEACT=1'' @ CRLF,
                  ''AT+QICSGP=1,1,"airtelgprs.com","","",1'' @ CRLF]\<close> by simp
  with apn_fail show ?thesis by blast
next
  case (through r1 w1 w2 r3 w3 w4)
  from sendAT_tx [OF through(1)] sendAT_tx [OF through(2)] sendAT_tx [OF through(3)]
    sendAT_tx [OF through(4)] sendAT_tx [OF through(5)]
  have \<open>tx w' = tx w @ [''ATE0'' @ CRLF, ''AT+CPIN?'' @ CRLF, ''AT+QIDEACT=1'' @ CRLF,
                  ''AT+QICSGP=1,1,"airtelgprs.com","","",1'' @ CRLF, ''AT+QIACT=1'' @ CRLF]\<close>
    by simp
  with through show ?thesis by blast
qed

theorem connectNetwork_steps_witness:
  \<open>map_option (\<lambda>(ok, w'). (ok, tx w')) (connectNetwork (fresh_board attach_answered))
   = Some (True, [''ATE0'' @ CRLF, ''AT+CPIN?'' @ CRLF, ''AT+QIDEACT=1'' @ CRLF,
                  ''AT+QICSGP=1,1,"airtelgprs.com","","",1'' @ CRLF, ''AT+QIACT=1'' @ CRLF])
   \<and> (\<exists>w4. map_option fst (sendAT ''AT+QIACT=1'' ''OK'' 10000 w4) = Some True)\<close>
proof -
  have e: \<open>map_option (\<lambda>(ok, w'). (ok, tx w')) (connectNetwork (fresh_board attach_answered))
   = Some (True, [''ATE0'' @ CRLF, ''AT+CPIN?'' @ CRLF, ''AT+QIDEACT=1'' @ CRLF,
                  ''AT+QICSGP=1,1,"airtelgprs.com","","",1'' @ CRLF, ''AT+QIACT=1'' @ CRLF])\<close>
    by (simp add: run_simps)
  then obtain w' where r: "connectNetwork (fresh_board attach_answered) = Some (True, w')"
    by auto
  from connectNetwork_steps [OF r]
  obtain w4 where "sendAT ''AT+QIACT=1'' ''OK'' 10000 w4 = Some (True, w')" by auto
  then have "\<exists>w4. map_option fst (sendAT ''AT+QIACT=1'' ''OK'' 10000 w4) = Some True"
    by (intro exI [of _ w4]) simp
  with e show ?thesis by blast
qed

text \<open>
  Claim C7 as it is written fails: the first transaction, \<^verbatim>\<open>ATE0\<close>, gets no answer within
  its second, and the sequence goes on through all five commands and succeeds.
\<close>

theorem connectNetwork_echo_failure_counterexample:
  \<open>map_option fst (sendAT ''ATE0'' ''OK'' 1000 (fresh_board echo_unanswered)) = Some False
   \<and> map_option (\<lambda>(ok, w'). (ok, tx w')) (connectNetwork (fresh_board echo_unanswered))
     = Some (True, [''ATE0'' @ CRLF, ''AT+CPIN?'' @ CRLF, ''AT+QIDEACT=1'' @ CRLF,
                    ''AT+QICSGP=1,1,"airtelgprs.com","","",1'' @ CRLF, ''AT+QIACT=1'' @ CRLF])\<close>
  by (simp add: run_simps)

section \<open>The AT transaction engine: proofs\<close>










section \<open>Download and verification: proofs\<close>

lemma stream_read_taken:
  assumes av: "0 < uart_available w"
    and n: "nat (stream_toRead fileSize b w) = n" "0 < n" "n \<le> length (rxbuf w)"
    and r: "stream_read fileSize b la w = Some (b', la', w1)"
  shows "b' = to_long (b + int n) \<and> (\<exists>arrived. rxbuf w1 = drop n (rxbuf w) @ arrived)"
proof -
  let ?buf = "take n (rxbuf w)"
  let ?wa = "w\<lparr>rxbuf := drop n (rxbuf w)\<rparr>"
  from n have mn: "min (length (rxbuf w)) n = n" by simp
  from n have ne: "rxbuf w \<noteq> []" by auto
  obtain written wb where fw: "file_write ?buf ?wa = (written, wb)"
    by (cases "file_write ?buf ?wa")
  then have rxb: "rxbuf wb = drop n (rxbuf w)"
    by (auto simp: file_write_def Let_def split: option.splits)
  from r av n(1,2) fw mn ne
  have r': "(case millis wb of None \<Rightarrow> None
             | Some (now, w3) \<Rightarrow>
                 Some (to_long (b + int n), now,
                       if to_long (b + int n) mod 51200 = 0
                       then printProgress (to_long (b + int n)) fileSize w3 else w3))
            = Some (b', la', w1)"
    by (simp add: stream_read_def uart_readBytes_def Let_def)
  then obtain now wc where m: "millis wb = Some (now, wc)"
    by (cases "millis wb") auto
  from m obtain arrived where rxc: "rxbuf wc = rxbuf wb @ arrived"
    by (auto simp: millis_def Let_def split: list.splits)
  from r' m have "b' = to_long (b + int n)"
    and "w1 = (if to_long (b + int n) mod 51200 = 0
               then printProgress (to_long (b + int n)) fileSize wc else wc)"
    by auto
  then have "b' = to_long (b + int n)" "rxbuf w1 = rxbuf wc"
    by (simp_all add: printProgress_def serial_println_def)
  with rxb rxc show ?thesis by simp
qed

lemma stream_read_step:
  assumes b: "0 \<le> b" "b < fileSize" "fileSize \<le> LONG_MAX"
    and r: "stream_read fileSize b la w = Some (b', la', w1)"
  shows "b' = b + min (min (int CHUNK_SIZE) (int (uart_available w))) (fileSize - b)
         \<and> b \<le> b' \<and> b' \<le> fileSize
         \<and> (\<exists>arrived. rxbuf w1 = drop (nat (b' - b)) (rxbuf w) @ arrived)"
proof (cases "0 < uart_available w")
  case False
  with r have "b' = b" "w1 = w" "uart_available w = 0" by (simp_all add: stream_read_def)
  with b show ?thesis by simp
next
  case avail: True
  define n where "n = nat (stream_toRead fileSize b w)"
  have tr: "stream_toRead fileSize b w
            = min (min (int CHUNK_SIZE) (int (uart_available w))) (fileSize - b)"
    by (rule stream_toRead_min [OF b])
  from avail b have pos: "0 < stream_toRead fileSize b w"
    unfolding tr by (simp add: CHUNK_SIZE_def)
  have le1: "stream_toRead fileSize b w \<le> int (length (rxbuf w))"
    unfolding tr by (simp add: uart_available_def min.coboundedI1)
  have le2: "stream_toRead fileSize b w \<le> fileSize - b"
    unfolding tr by simp
  from pos le1 le2 have n: "0 < n" "n \<le> length (rxbuf w)" "int n = stream_toRead fileSize b w"
    "b + int n \<le> fileSize"
    unfolding n_def by simp_all
  from stream_read_taken [OF avail n_def [symmetric] n(1,2) r]
  obtain arrived where t: "b' = to_long (b + int n)" "rxbuf w1 = drop n (rxbuf w) @ arrived"
    by blast
  from b n(4) have "to_long (b + int n) = b + int n"
    by (intro to_long_id) (simp_all add: LONG_MAX_def)
  with t(1) have b': "b' = b + int n" by simp
  with n(3) tr have e1: "b' = b + min (min (int CHUNK_SIZE) (int (uart_available w))) (fileSize - b)"
    by simp
  from b' n(4) have e2: "b \<le> b'" "b' \<le> fileSize" by simp_all
  from b' have "nat (b' - b) = n" by simp
  with t(2) have e3: "\<exists>arrived. rxbuf w1 = drop (nat (b' - b)) (rxbuf w) @ arrived" by blast
  from e1 e2 e3 show ?thesis by blast
qed

lemma stream_reach_bounds:
  assumes "stream_reach fileSize s0 s" "0 \<le> fst s0" "fst s0 \<le> fileSize" "fileSize \<le> LONG_MAX"
  shows "fst s0 \<le> fst s \<and> fst s \<le> fileSize"
  using assms
proof (induction rule: stream_reach.induct)
  case (start s)
  then show ?case by simp
next
  case (iterate s b la w b' la' w1 now w2)
  then have "fst s \<le> b" "b \<le> fileSize" by simp_all
  with iterate.prems have b: "0 \<le> b" by simp
  from stream_read_step [OF b iterate.hyps(2) iterate.prems(3) iterate.hyps(3)]
  have "b \<le> b'" "b' \<le> fileSize" by simp_all
  with \<open>fst s \<le> b\<close> show ?case by simp
qed

lemma stream_reach_loop:
  assumes "stream_reach fileSize s0 s"
  shows "stream_loop fileSize (fst s0) (fst (snd s0)) (snd (snd s0))
         = stream_loop fileSize (fst s) (fst (snd s)) (snd (snd s))"
  using assms
proof (induction rule: stream_reach.induct)
  case (start s)
  show ?case ..
next
  case (iterate s b la w b' la' w1 now w2)
  then show ?case by (simp add: stream_loop.simps [of fileSize b la w])
qed

lemma stream_loop_bounds:
  "stream_loop fileSize b la w = Some (b', w') \<Longrightarrow> 0 \<le> b \<Longrightarrow> b \<le> fileSize \<Longrightarrow>
     fileSize \<le> LONG_MAX \<Longrightarrow> b \<le> b' \<and> b' \<le> fileSize"
proof (induction fileSize b la w rule: stream_loop.induct)
  case (1 fileSize b la w)
  show ?case
  proof (cases "b < fileSize")
    case False
    with "1.prems" show ?thesis by (simp add: stream_loop.simps [of fileSize b la w])
  next
    case True
    with "1.prems" obtain b1 la1 w1 where r: "stream_read fileSize b la w = Some (b1, la1, w1)"
      by (auto simp: stream_loop.simps [of fileSize b la w] split: option.splits)
    from stream_read_step [OF "1.prems"(2) True "1.prems"(4) r]
    have b1: "b \<le> b1" "b1 \<le> fileSize" by simp_all
    from "1.prems" True r obtain now w2 where m: "millis w1 = Some (now, w2)"
      by (auto simp: stream_loop.simps [of fileSize b la w] split: option.splits)
    show ?thesis
    proof (cases "now - la1 > INACTIVITY_TIMEOUT")
      case True
      with "1.prems" \<open>b < fileSize\<close> r m b1 show ?thesis
        by (simp add: stream_loop.simps [of fileSize b la w])
    next
      case False
      with "1.prems" \<open>b < fileSize\<close> r m
      have l: "stream_loop fileSize b1 la1 w2 = Some (b', w')"
        by (simp add: stream_loop.simps [of fileSize b la w])
      from "1.IH" [OF True r refl refl m refl False l] b1 "1.prems"(2,4)
      show ?thesis by simp
    qed
  qed
qed

text \<open>
  Claim C1. In the binary read loop \<open>bytesDownloaded\<close> never exceeds \<open>fileSize\<close>. For a
  declared size \<open>0 < fileSize\<close> (of a 32-bit \<^verbatim>\<open>long\<close>): every state at the head of the loop
  has \<open>0 \<le> bytesDownloaded \<le> fileSize\<close>; an iteration takes from the UART exactly the
  least of the chunk size, the bytes available and the bytes still missing, and leaves
  whatever else has arrived in the receive buffer; and the count the loop ends with is
  at most \<open>fileSize\<close>.
\<close>

theorem stream_loop_never_overruns:
  assumes "0 < fileSize" "fileSize \<le> LONG_MAX"
  shows "(stream_reach fileSize (0, lastAct, w) (b, la, w1) \<longrightarrow>
            0 \<le> b \<and> b \<le> fileSize
            \<and> stream_loop fileSize 0 lastAct w = stream_loop fileSize b la w1)
       \<and> (stream_reach fileSize (0, lastAct, w) (b, la, w1) \<and> b < fileSize
            \<and> stream_read fileSize b la w1 = Some (b', la', w2) \<longrightarrow>
            b' - b = min (min (int CHUNK_SIZE) (int (uart_available w1))) (fileSize - b)
            \<and> b' \<le> fileSize
            \<and> (\<exists>arrived. rxbuf w2 = drop (nat (b' - b)) (rxbuf w1) @ arrived))
       \<and> (stream_loop fileSize 0 lastAct w = Some (r, w') \<longrightarrow> 0 \<le> r \<and> r \<le> fileSize)"
proof (intro conjI impI)
  assume reach: "stream_reach fileSize (0, lastAct, w) (b, la, w1)"
  from stream_reach_bounds [OF reach] assms show "0 \<le> b" "b \<le> fileSize" by simp_all
  from stream_reach_loop [OF reach]
  show "stream_loop fileSize 0 lastAct w = stream_loop fileSize b la w1" by simp
next
  assume a: "stream_reach fileSize (0, lastAct, w) (b, la, w1) \<and> b < fileSize
             \<and> stream_read fileSize b la w1 = Some (b', la', w2)"
  then have reach: "stream_reach fileSize (0, lastAct, w) (b, la, w1)" and lt: "b < fileSize"
    and r: "stream_read fileSize b la w1 = Some (b', la', w2)" by simp_all
  from stream_reach_bounds [OF reach] assms have b0: "0 \<le> b" by simp
  note st = stream_read_step [OF b0 lt assms(2) r]
  from st show "b' - b = min (min (int CHUNK_SIZE) (int (uart_available w1))) (fileSize - b)"
    by simp
  from st show "b' \<le> fileSize" by simp
  from st show "\<exists>arrived. rxbuf w2 = drop (nat (b' - b)) (rxbuf w1) @ arrived" by blast
next
  assume l: "stream_loop fileSize 0 lastAct w = Some (r, w')"
  from stream_loop_bounds [OF l] assms show "0 \<le> r" "r \<le> fileSize" by simp_all
qed

theorem stream_loop_never_overruns_witness:
  "map_option (\<lambda>(r, w'). (r, rxbuf w', files w' FILE_PATH))
     (stream_loop 3 0 0 (opened_board (''abc'' @ CRLF @ ''OK'' @ CRLF) (quiet 2)))
   = Some (3, CRLF @ ''OK'' @ CRLF, Some ''abc'')
   \<and> fst (the (stream_loop 3 0 0 (opened_board (''abc'' @ CRLF @ ''OK'' @ CRLF) (quiet 2)))) \<le> 3"
proof -
  let ?w = "opened_board (''abc'' @ CRLF @ ''OK'' @ CRLF) (quiet 2)"
  have e: "map_option (\<lambda>(r, w'). (r, rxbuf w', files w' FILE_PATH)) (stream_loop 3 0 0 ?w)
           = Some (3, CRLF @ ''OK'' @ CRLF, Some ''abc'')"
    by (simp add: run_simps)
  then obtain w' where r: "stream_loop 3 0 0 ?w = Some (3, w')" by auto
  have "(0::int) < 3" "(3::int) \<le> LONG_MAX" by (simp_all add: LONG_MAX_def)
  from stream_loop_never_overruns [OF this, of 0 ?w 0 0 ?w 0 0 ?w 3 w'] r
  have "fst (the (stream_loop 3 0 0 ?w)) \<le> 3" by simp
  with e show ?thesis by blast
qed


lemma serial_println_console: "console (serial_println m w) = console w @ [m]"
  by (simp add: serial_println_def)






text \<open>
  Claim C3 says that a download that fails before the binary read loop leaves no file
  behind. Two runs show otherwise. In both the modem announces a file of three bytes
  and the file is opened on SPIFFS. In the first the modem then never says
  \<^verbatim>\<open>CONNECT\<close>; in the second it does, and the heap has no room for the chunk buffer. Each
  run closes the file and returns, and the file it created is still there, empty.
\<close>

theorem early_abort_leaves_empty_file:
  "map_option (\<lambda>w'. (console w', files w' FILE_PATH, wr_open w'))
     (downloadAndVerify ''http://example/file.bin''
        (fresh_board (prep_answered @ url_accepted @ size_announced @ stream_refused)))
   = Some ([MsgBanner, MsgTargetFileSize 3, MsgNoConnect], Some [], None)
   \<and> map_option (\<lambda>w'. (console w', files w' FILE_PATH, wr_open w'))
     (downloadAndVerify ''http://example/file.bin''
        ((fresh_board (prep_answered @ url_accepted @ size_announced @ stream_opened))
           \<lparr>heap_free := 1000\<rparr>))
   = Some ([MsgBanner, MsgTargetFileSize 3, MsgAllocFailed], Some [], None)"
  by (simp add: run_simps)

text \<open>
  Claim C4 says that a run that ends with \<open>bytesDownloaded = fileSize\<close> has stored exactly
  the bytes received. The loop counts the bytes it read from the modem and does not look
  at what \<^verbatim>\<open>file.write\<close> returns: with room for two bytes on SPIFFS and a file of three,
  the run reports success, keeps a file of two bytes and computes its checksum.
\<close>

theorem full_storage_reported_complete:
  "map_option (\<lambda>w'. (console w', files w' FILE_PATH, wr_open w'))
     (downloadAndVerify ''http://example/file.bin''
        ((fresh_board (prep_answered @ url_accepted @ size_announced @ stream_opened @ payload_abc))
           \<lparr>fs_room := 2\<rparr>))
   = Some ([MsgBanner, MsgTargetFileSize 3, MsgDownloadSuccess 3 3, MsgVerifying, MsgMD5 ''ab''],
           Some ''ab'', None)"
  by (simp add: run_simps)

































section \<open>Every wait against its deadline\<close>

lemma timedRead_dribble:
  assumes f: "future w = dribble (Suc n)" and rx: "set (rxbuf w) \<subseteq> {CHR ''x''}"
  shows "\<exists>w'. timedRead w = Some (of_char (CHR ''x''), w') \<and> future w' = dribble n
           \<and> set (rxbuf w') \<subseteq> {CHR ''x''}"
proof -
  let ?w1 = "w\<lparr>clock := clock w + 1, future := dribble n, rxbuf := rxbuf w @ ''x''\<rparr>"
  from f have m: "millis w = Some (clock w + 1, ?w1)"
    by (simp add: millis_def dribble_def Let_def)
  obtain c cs where r: "rxbuf w @ ''x'' = c # cs" by (cases "rxbuf w @ ''x''") auto
  with rx have c: "c = CHR ''x''" and cs: "set cs \<subseteq> {CHR ''x''}"
    by (cases "rxbuf w"; auto)+
  from r have u: "uart_read ?w1 = (of_char c, ?w1\<lparr>rxbuf := cs\<rparr>)"
    by (simp add: uart_read_def)
  have "timedRead_loop (clock w + 1) ?w1 = Some (of_char c, ?w1\<lparr>rxbuf := cs\<rparr>)"
    by (simp add: timedRead_loop.simps [of "clock w + 1" ?w1] u of_char_nonneg)
  with m c cs show ?thesis by (simp add: timedRead_def)
qed

lemma readStringUntil_loop_dribble:
  "future w = dribble n \<Longrightarrow> set (rxbuf w) \<subseteq> {CHR ''x''} \<Longrightarrow>
   readStringUntil_loop (CHR 0x0A) ret (of_char (CHR ''x'')) w = None"
proof (induction n arbitrary: w ret)
  case 0
  then have "millis w = None" by (simp add: millis_def dribble_def Let_def)
  then show ?case
    by (simp add: readStringUntil_loop.simps [of _ ret _ w] timedRead_def)
next
  case (Suc n)
  from timedRead_dribble [OF Suc.prems]
  obtain w' where t: "timedRead w = Some (of_char (CHR ''x''), w')"
    and f: "future w' = dribble n" and rx: "set (rxbuf w') \<subseteq> {CHR ''x''}" by blast
  from Suc.IH [OF f rx] t show ?case
    by (simp add: readStringUntil_loop.simps [of _ ret _ w])
qed

lemma readStringUntil_dribble:
  assumes f: "future w = dribble n" and rx: "set (rxbuf w) \<subseteq> {CHR ''x''}"
  shows "readStringUntil (CHR 0x0A) w = None"
proof (cases n)
  case 0
  with f have "millis w = None" by (simp add: millis_def dribble_def Let_def)
  then show ?thesis by (simp add: readStringUntil_def timedRead_def)
next
  case (Suc k)
  with f have "future w = dribble (Suc k)" by simp
  from timedRead_dribble [OF this rx]
  obtain w' where t: "timedRead w = Some (of_char (CHR ''x''), w')"
    and f': "future w' = dribble k" and rx': "set (rxbuf w') \<subseteq> {CHR ''x''}" by blast
  from readStringUntil_loop_dribble [OF f' rx'] t show ?thesis
    by (simp add: readStringUntil_def)
qed

lemma millis_dribble:
  "millis (fresh_board (dribble (Suc n)))
     = Some (1, (fresh_board (dribble (Suc n)))\<lparr>clock := 1, future := dribble n, rxbuf := ''x''\<rparr>)"
  by (simp add: millis_def dribble_def fresh_board_def Let_def)

lemma size_wait_loop_dribble: "size_wait_loop 0 (fresh_board (dribble n)) = None"
proof (cases n)
  case 0
  then have "millis (fresh_board (dribble n)) = None"
    by (simp add: millis_def dribble_def fresh_board_def Let_def)
  then show ?thesis by (simp add: size_wait_loop.simps [of 0 "fresh_board (dribble n)"])
next
  case (Suc k)
  let ?w1 = "(fresh_board (dribble (Suc k)))\<lparr>clock := 1, future := dribble k, rxbuf := ''x''\<rparr>"
  have "readStringUntil (CHR 0x0A) ?w1 = None"
    by (rule readStringUntil_dribble [of _ k]) simp_all
  with Suc millis_dribble [of k] show ?thesis
    by (simp add: size_wait_loop.simps [of 0 "fresh_board (dribble (Suc k))"] uart_available_def)
qed

lemma connect_wait_loop_dribble: "connect_wait_loop 0 (fresh_board (dribble n)) = None"
proof (cases n)
  case 0
  then have "millis (fresh_board (dribble n)) = None"
    by (simp add: millis_def dribble_def fresh_board_def Let_def)
  then show ?thesis by (simp add: connect_wait_loop.simps [of 0 "fresh_board (dribble n)"])
next
  case (Suc k)
  let ?w1 = "(fresh_board (dribble (Suc k)))\<lparr>clock := 1, future := dribble k, rxbuf := ''x''\<rparr>"
  have "readStringUntil (CHR 0x0A) ?w1 = None"
    by (rule readStringUntil_dribble [of _ k]) simp_all
  with Suc millis_dribble [of k] show ?thesis
    by (simp add: connect_wait_loop.simps [of 0 "fresh_board (dribble (Suc k))"] uart_available_def)
qed

lemma keeps_time_dribble: "n \<le> m \<Longrightarrow> keeps_time 80000 n (fresh_board (dribble m))"
  using ticks_replicate [of m 0 "''x''"]
  by (auto simp: keeps_time_def dribble_def fresh_board_def)

lemma keeps_time_lone_byte:
  "n \<le> 163003 \<Longrightarrow> window \<le> 80000 \<Longrightarrow> keeps_time window n lone_byte"
  using ticks_replicate [of 163002 0 "[]"]
  by (auto simp: keeps_time_def lone_byte_def fresh_board_def ticks_Cons)

lemma pending_lone_byte: "pending lone_byte = ''x''"
  by (simp add: pending_def lone_byte_def fresh_board_def concat_replicate_Nil)

text \<open>
  Claim C9. The waits are loops that look at the timer on each round. \<open>sendAT\<close> and
  \<open>waitForResponse\<close> return once the timer has advanced \<open>timeout + 2\<close> times, whatever
  arrives meanwhile. The streaming loop, entered with the last activity set to the
  present time, returns for every input stream once the timer has advanced 60002 times
  for each byte of the declared size and 60002 times more: a round either takes in a byte of
  the at most \<open>fileSize\<close> or lets the inactivity window run. The waits for the size and
  for \<^verbatim>\<open>CONNECT\<close> look at their deadline only between two reads of a line, and the read of
  a line ends at the line feed or after one second without a byte: they return once
  the timer has advanced 80002 (10002) times and 83000 times more for each byte still
  to come. Their deadline alone does not bound them: while bytes other than a line
  feed keep coming less than a second apart the read of the line goes on, and on
  \<open>dribble n\<close>, however long, neither wait has returned.
\<close>

theorem waits_return:
  "(keeps_time (unat timeout) (unat timeout + 2) w \<longrightarrow>
      sendAT cmd expected timeout w \<noteq> None \<and> waitForResponse timeout w \<noteq> None)
   \<and> (0 \<le> fileSize \<and> fileSize \<le> LONG_MAX
        \<and> keeps_time 60000 (60002 + nat fileSize * 60002) w \<longrightarrow>
      stream_loop fileSize 0 (clock w) w \<noteq> None)
   \<and> (keeps_time 80000 (80002 + 83000 * length (pending w)) w \<longrightarrow>
      size_wait_loop startWait w \<noteq> None)
   \<and> (keeps_time 10000 (10002 + 83000 * length (pending w)) w \<longrightarrow>
      connect_wait_loop connectTime w \<noteq> None)"
proof (intro conjI impI)
  assume k: "keeps_time (unat timeout) (unat timeout + 2) w"
  then have a: "unat timeout + 1 < ticks (future w)"
    and b: "\<forall>e\<in>set (future w). fst e + unat timeout < 2 ^ 32"
    by (simp_all add: keeps_time_def)
  from sendAT_returns [OF a b] show "sendAT cmd expected timeout w \<noteq> None" .
  from waitForResponse_returns [OF a b] show "waitForResponse timeout w \<noteq> None" .
next
  assume "0 \<le> fileSize \<and> fileSize \<le> LONG_MAX
            \<and> keeps_time 60000 (60002 + nat fileSize * 60002) w"
  then have f: "0 \<le> fileSize" "fileSize \<le> LONG_MAX"
    and a: "60001 - unat (clock w - clock w) + nat (fileSize - 0) * 60002 < ticks (future w)"
    and b: "\<forall>e\<in>set (future w). fst e + 60000 < 2 ^ 32"
    by (simp_all add: keeps_time_def)
  have "unat (clock w - clock w) \<le> 60000" by simp
  from stream_loop_returns [OF order_refl f this a b]
  show "stream_loop fileSize 0 (clock w) w \<noteq> None" .
next
  assume "keeps_time 80000 (80002 + 83000 * length (pending w)) w"
  then have a: "80000 + 2 + 83000 * length (pending w) \<le> ticks (future w)"
    and b: "\<forall>e\<in>set (future w). fst e + 80000 < 2 ^ 32"
    by (simp_all add: keeps_time_def)
  from line_wait_fuel_le [of 80000 startWait w] a
  have "line_wait_fuel 80000 startWait w \<le> ticks (future w)" by (rule order_trans)
  from size_wait_loop_returns [OF this b] show "size_wait_loop startWait w \<noteq> None" .
next
  assume "keeps_time 10000 (10002 + 83000 * length (pending w)) w"
  then have a: "10000 + 2 + 83000 * length (pending w) \<le> ticks (future w)"
    and b: "\<forall>e\<in>set (future w). fst e + 10000 < 2 ^ 32"
    by (simp_all add: keeps_time_def)
  from line_wait_fuel_le [of 10000 connectTime w] a
  have "line_wait_fuel 10000 connectTime w \<le> ticks (future w)" by (rule order_trans)
  from connect_wait_loop_returns [OF this b] show "connect_wait_loop connectTime w \<noteq> None" .
qed

theorem waits_return_witness:
  "keeps_time 1000 1002 lone_byte
   \<and> sendAT ''AT'' ''OK'' 1000 lone_byte \<noteq> None
   \<and> waitForResponse 1000 lone_byte \<noteq> None
   \<and> keeps_time 60000 120004 lone_byte
   \<and> stream_loop 1 0 (clock lone_byte) lone_byte \<noteq> None
   \<and> length (pending lone_byte) = 1
   \<and> keeps_time 80000 163002 lone_byte
   \<and> size_wait_loop 0 lone_byte \<noteq> None
   \<and> keeps_time 10000 93002 lone_byte
   \<and> connect_wait_loop 0 lone_byte \<noteq> None"
proof -
  have k1: "keeps_time 1000 1002 lone_byte" by (rule keeps_time_lone_byte) simp_all
  have k2: "keeps_time 60000 120004 lone_byte" by (rule keeps_time_lone_byte) simp_all
  have k3: "keeps_time 80000 163002 lone_byte" by (rule keeps_time_lone_byte) simp_all
  have k4: "keeps_time 10000 93002 lone_byte" by (rule keeps_time_lone_byte) simp_all
  have p: "length (pending lone_byte) = 1" by (simp add: pending_lone_byte)
  note th = waits_return [of 1000 lone_byte "''AT''" "''OK''" 1 0 0]
  from th k1 have a: "sendAT ''AT'' ''OK'' 1000 lone_byte \<noteq> None"
    "waitForResponse 1000 lone_byte \<noteq> None" by simp_all
  from th k2 have b: "stream_loop 1 0 (clock lone_byte) lone_byte \<noteq> None"
    by (simp add: LONG_MAX_def)
  from th k3 p have c: "size_wait_loop 0 lone_byte \<noteq> None" by simp
  from th k4 p have d: "connect_wait_loop 0 lone_byte \<noteq> None" by simp
  from k1 k2 k3 k4 p a b c d show ?thesis by blast
qed

text \<open>
  Claim C9 as it is written fails for the two waits that read lines: the modem of
  \<open>dribble\<close> sends a letter every millisecond, and after 200 seconds, and after any
  time, neither the wait for the size (80 seconds) nor the wait for \<^verbatim>\<open>CONNECT\<close> (10
  seconds) has returned.
\<close>

theorem line_waits_dribble_counterexample:
  "keeps_time 80000 200000 (fresh_board (dribble 200000))
   \<and> size_wait_loop 0 (fresh_board (dribble 200000)) = None
   \<and> connect_wait_loop 0 (fresh_board (dribble 200000)) = None
   \<and> (\<forall>n. size_wait_loop 0 (fresh_board (dribble n)) = None
          \<and> connect_wait_loop 0 (fresh_board (dribble n)) = None)"
  using keeps_time_dribble [of 200000 200000]
  by (simp add: size_wait_loop_dribble connect_wait_loop_dribble)

end
